theory Spec2Isabelle
  imports Main "HOL-Library.Word"
begin

unbundle bit_operations_syntax

section \<open>JavaScript values and 32-bit integer operators\<close>

text \<open>
  The module \<^verbatim>\<open>dxt1.js\<close> computes with JavaScript Numbers that hold integers.
  Integer-valued Numbers are modelled as \<^typ>\<open>int\<close>: \<^verbatim>\<open>+\<close>, \<^verbatim>\<open>-\<close> and \<^verbatim>\<open>*\<close> are exact on
  them as long as the values stay below \<open>2 ^ 53\<close> in magnitude.  The bitwise operators
  \<^verbatim>\<open>&\<close>, \<^verbatim>\<open>|\<close>, \<^verbatim>\<open><<\<close> and \<^verbatim>\<open>>>\<close> first convert their operands to signed 32-bit integers
  (the abstract operation ToInt32) and produce a signed 32-bit integer; the shift count is
  taken modulo 32.
\<close>

type_synonym u8 = "8 word"
type_synonym u32 = "32 word"

definition ToInt32 :: "int \<Rightarrow> int" where
  "ToInt32 x = (x + 2 ^ 31) mod 2 ^ 32 - 2 ^ 31"

definition js_and :: "int \<Rightarrow> int \<Rightarrow> int" where
  "js_and a b = ToInt32 a AND ToInt32 b"

definition js_or :: "int \<Rightarrow> int \<Rightarrow> int" where
  "js_or a b = ToInt32 a OR ToInt32 b"

definition js_shl :: "int \<Rightarrow> nat \<Rightarrow> int" where
  "js_shl a n = ToInt32 (push_bit (n mod 32) (ToInt32 a))"

definition js_sar :: "int \<Rightarrow> nat \<Rightarrow> int" where
  "js_sar a n = drop_bit (n mod 32) (ToInt32 a)"

section \<open>Colour-space codec\<close>

text \<open>\<^verbatim>\<open>toRGB565(r, g, b)\<close>: \<^verbatim>\<open>((r & 0xf8) << 8) | ((g & 0xfc) << 3) | (b >> 3)\<close>.\<close>

definition toRGB565 :: "int \<Rightarrow> int \<Rightarrow> int \<Rightarrow> int" where
  "toRGB565 r g b =
     js_or (js_or (js_shl (js_and r 0xf8) 8) (js_shl (js_and g 0xfc) 3)) (js_sar b 3)"

text \<open>\<^verbatim>\<open>rFromRGB565(c)\<close>: \<^verbatim>\<open>var r = c >> 11; return (r << 3) | (r >> 2);\<close>\<close>

definition rFromRGB565 :: "int \<Rightarrow> int" where
  "rFromRGB565 c = (let r = js_sar c 11 in js_or (js_shl r 3) (js_sar r 2))"

text \<open>\<^verbatim>\<open>gFromRGB565(c)\<close>: \<^verbatim>\<open>var g = (c >> 5) & 0x3f; return (g << 2) | (g >> 4);\<close>\<close>

definition gFromRGB565 :: "int \<Rightarrow> int" where
  "gFromRGB565 c = (let g = js_and (js_sar c 5) 0x3f in js_or (js_shl g 2) (js_sar g 4))"

text \<open>\<^verbatim>\<open>bFromRGB565(c)\<close>: \<^verbatim>\<open>var b = c & 0x1f; return (b << 3) | (b >> 2);\<close>\<close>

definition bFromRGB565 :: "int \<Rightarrow> int" where
  "bFromRGB565 c = (let b = js_and c 0x1f in js_or (js_shl b 3) (js_sar b 2))"

section \<open>Typed arrays\<close>

text \<open>
  Reading a typed array outside its bounds yields \<^verbatim>\<open>undefined\<close> (modelled as \<open>None\<close>);
  writing outside its bounds is ignored.  \<^verbatim>\<open>new Uint32Array(n)\<close> throws a
  \<^verbatim>\<open>RangeError\<close> for a negative length and is zero-filled otherwise.  A value stored in
  a \<^verbatim>\<open>Uint32Array\<close> is reduced modulo \<open>2 ^ 32\<close>.
\<close>

datatype js_error = RangeError

definition pixel :: "u8 list \<Rightarrow> int \<Rightarrow> int option" where
  "pixel pixels off =
     (if 0 \<le> off \<and> off < int (length pixels) then Some (uint (pixels ! nat off)) else None)"

definition new_Uint32Array :: "int \<Rightarrow> js_error + u32 list" where
  "new_Uint32Array n = (if n < 0 then Inl RangeError else Inr (replicate (nat n) 0))"

text \<open>\<^verbatim>\<open>a[i] = v\<close> on a \<^verbatim>\<open>Uint32Array\<close>.\<close>

definition store :: "u32 list \<Rightarrow> nat \<Rightarrow> int \<Rightarrow> u32 list" where
  "store a i v = (if i < length a then a[i := word_of_int v] else a)"

text \<open>\<^verbatim>\<open>a[i] |= v\<close> on a \<^verbatim>\<open>Uint32Array\<close>; \<^verbatim>\<open>undefined | v\<close> is \<^verbatim>\<open>v\<close>, and then the store is dropped.\<close>

definition or_store :: "u32 list \<Rightarrow> nat \<Rightarrow> int \<Rightarrow> u32 list" where
  "or_store a i v = (if i < length a then a[i := word_of_int (js_or (uint (a ! i)) v)] else a)"

text \<open>
  \<^verbatim>\<open>target.set(source, offset)\<close>: throws a \<^verbatim>\<open>RangeError\<close> when the source does not fit
  into the target at the offset, and copies the source otherwise.
\<close>

definition typed_set :: "u32 list \<Rightarrow> u32 list \<Rightarrow> nat \<Rightarrow> js_error + u32 list" where
  "typed_set target source offset =
     (if length source + offset > length target then Inl RangeError
      else Inr (take offset target @ source @ drop (offset + length source) target))"

section \<open>The transparent image\<close>

definition INSET_SHIFT :: nat where
  "INSET_SHIFT = 4"

definition TRANSPARENT_BLOCK_SIZE :: nat where
  "TRANSPARENT_BLOCK_SIZE = 1024"

definition TRANSPARENT_BLOCK :: "u32 list" where
  "TRANSPARENT_BLOCK = replicate TRANSPARENT_BLOCK_SIZE 0xffffffff"

text \<open>
  The loop of \<^verbatim>\<open>getTransparentImage\<close>:
  \<^verbatim>\<open>for (offset = 0; offset < dataLength; offset += TRANSPARENT_BLOCK_SIZE) data.set(TRANSPARENT_BLOCK, offset);\<close>
\<close>

function fill_loop :: "nat \<Rightarrow> nat \<Rightarrow> u32 list \<Rightarrow> js_error + u32 list" where
  "fill_loop dataLength offset d =
     (if offset < dataLength then
        (case typed_set d TRANSPARENT_BLOCK offset of
           Inl e \<Rightarrow> Inl e
         | Inr d' \<Rightarrow> fill_loop dataLength (offset + TRANSPARENT_BLOCK_SIZE) d')
      else Inr d)"
  by pat_completeness auto
termination
  by (relation "measure (\<lambda>(dataLength, offset, d). dataLength - offset)")
     (auto simp: TRANSPARENT_BLOCK_SIZE_def)

definition getTransparentImage :: "nat \<Rightarrow> nat \<Rightarrow> js_error + u32 list" where
  "getTransparentImage width height =
     (let dataLength = js_sar (int width * int height) 3 in
      case new_Uint32Array dataLength of
        Inl e \<Rightarrow> Inl e
      | Inr d \<Rightarrow> fill_loop (nat dataLength) 0 d)"

section \<open>Compression\<close>

text \<open>
  The argument of \<^verbatim>\<open>compress\<close> is an \<^verbatim>\<open>ImageData\<close>: a width, a height and a
  \<^verbatim>\<open>Uint8ClampedArray\<close> of RGBA bytes.  Nothing in the code checks that the array has
  \<open>4 * width * height\<close> entries, so the model does not assume it either.
\<close>

record image =
  width :: nat
  height :: nat
  data :: "u8 list"

subsection \<open>Block analyser: bounding box and endpoints\<close>

record bbox =
  maxR :: int
  maxG :: int
  maxB :: int
  minR :: int
  minG :: int
  minB :: int

text \<open>
  \<^verbatim>\<open>if (max < pixels[offset]) { max = pixels[offset]; }\<close> and
  \<^verbatim>\<open>if (min > pixels[offset]) { min = pixels[offset]; }\<close>: a comparison with
  \<^verbatim>\<open>undefined\<close> is false.
\<close>

definition raise_to :: "int \<Rightarrow> int option \<Rightarrow> int" where
  "raise_to cur p = (case p of None \<Rightarrow> cur | Some v \<Rightarrow> if cur < v then v else cur)"

definition lower_to :: "int \<Rightarrow> int option \<Rightarrow> int" where
  "lower_to cur p = (case p of None \<Rightarrow> cur | Some v \<Rightarrow> if cur > v then v else cur)"

text \<open>The byte offset of pixel \<open>m\<close> of the block at \<open>(i, j)\<close>, as the bounding-box loop
  computes it: \<^verbatim>\<open>4 * ((i + (m >> 2)) * w + j + (m & 3))\<close>.\<close>

definition scan_offset :: "nat \<Rightarrow> nat \<Rightarrow> nat \<Rightarrow> nat \<Rightarrow> int" where
  "scan_offset w i j m = 4 * ((int i + js_sar (int m) 2) * int w + int j + js_and (int m) 3)"

definition bbox_step :: "u8 list \<Rightarrow> nat \<Rightarrow> nat \<Rightarrow> nat \<Rightarrow> bbox \<Rightarrow> nat \<Rightarrow> bbox" where
  "bbox_step pixels w i j bb m =
     (let offset = scan_offset w i j m in
      \<lparr> maxR = raise_to (maxR bb) (pixel pixels offset),
        maxG = raise_to (maxG bb) (pixel pixels (offset + 1)),
        maxB = raise_to (maxB bb) (pixel pixels (offset + 2)),
        minR = lower_to (minR bb) (pixel pixels offset),
        minG = lower_to (minG bb) (pixel pixels (offset + 1)),
        minB = lower_to (minB bb) (pixel pixels (offset + 2)) \<rparr>)"

definition bbox_init :: bbox where
  "bbox_init = \<lparr> maxR = 0, maxG = 0, maxB = 0, minR = 0xff, minG = 0xff, minB = 0xff \<rparr>"

definition bbox_scan :: "u8 list \<Rightarrow> nat \<Rightarrow> nat \<Rightarrow> nat \<Rightarrow> bbox" where
  "bbox_scan pixels w i j = foldl (bbox_step pixels w i j) bbox_init [0..<16]"

text \<open>\<^verbatim>\<open>(max - min) >> INSET_SHIFT\<close>\<close>

definition inset :: "int \<Rightarrow> int \<Rightarrow> int" where
  "inset mx mn = js_sar (mx - mn) INSET_SHIFT"

text \<open>\<^verbatim>\<open>(max >= inset) ? (max - inset) : 0\<close>\<close>

definition inset_max :: "int \<Rightarrow> int \<Rightarrow> int" where
  "inset_max mx ins = (if mx \<ge> ins then mx - ins else 0)"

text \<open>\<^verbatim>\<open>(min + inset < 255) ? (min + inset) : 255\<close>\<close>

definition inset_min :: "int \<Rightarrow> int \<Rightarrow> int" where
  "inset_min mn ins = (if mn + ins < 255 then mn + ins else 255)"

text \<open>The pair \<open>(maxColor565, minColor565)\<close> before the swap.\<close>

definition endpoints :: "bbox \<Rightarrow> int \<times> int" where
  "endpoints bb =
     (let insetR = inset (maxR bb) (minR bb);
          insetG = inset (maxG bb) (minG bb);
          insetB = inset (maxB bb) (minB bb);
          maxColor565 = toRGB565 (inset_max (maxR bb) insetR)
                                 (inset_max (maxG bb) insetG)
                                 (inset_max (maxB bb) insetB);
          minColor565 = toRGB565 (inset_min (minR bb) insetR)
                                 (inset_min (minG bb) insetG)
                                 (inset_min (minB bb) insetB)
      in (maxColor565, minColor565))"

text \<open>\<^verbatim>\<open>if (maxColor565 < minColor565) { swap }\<close>\<close>

definition order_endpoints :: "int \<times> int \<Rightarrow> int \<times> int" where
  "order_endpoints e = (case e of (maxColor565, minColor565) \<Rightarrow>
     if maxColor565 < minColor565 then (minColor565, maxColor565)
     else (maxColor565, minColor565))"

subsection \<open>Palette builder\<close>

text \<open>\<^verbatim>\<open>(x / 3) | 0\<close>: the quotient truncated towards zero, as a 32-bit integer.\<close>

definition div3_trunc :: "int \<Rightarrow> int" where
  "div3_trunc x = js_or (sgn x * (\<bar>x\<bar> div 3)) 0"

record palette =
  colorsR :: "int list"
  colorsG :: "int list"
  colorsB :: "int list"

text \<open>
  The arrays \<^verbatim>\<open>colorsR\<close>, \<^verbatim>\<open>colorsG\<close> and \<^verbatim>\<open>colorsB\<close> are allocated once per call, but
  every block that reads them has assigned all four entries of each before; they are
  modelled as values built per block.
\<close>

definition interp2 :: "int \<Rightarrow> int \<Rightarrow> int" where
  "interp2 c0 c1 = div3_trunc (c1 + js_shl c0 1)"

definition interp3 :: "int \<Rightarrow> int \<Rightarrow> int" where
  "interp3 c0 c1 = div3_trunc (js_shl c1 1 + c0)"

definition build_palette :: "int \<Rightarrow> int \<Rightarrow> palette" where
  "build_palette maxColor565 minColor565 =
     (let colorsR0 = rFromRGB565 maxColor565;
          colorsG0 = gFromRGB565 maxColor565;
          colorsB0 = bFromRGB565 maxColor565;
          colorsR1 = rFromRGB565 minColor565;
          colorsG1 = gFromRGB565 minColor565;
          colorsB1 = bFromRGB565 minColor565
      in \<lparr> colorsR = [colorsR0, colorsR1, interp2 colorsR0 colorsR1, interp3 colorsR0 colorsR1],
           colorsG = [colorsG0, colorsG1, interp2 colorsG0 colorsG1, interp3 colorsG0 colorsG1],
           colorsB = [colorsB0, colorsB1, interp2 colorsB0 colorsB1, interp3 colorsB0 colorsB1] \<rparr>)"

subsection \<open>Index assigner\<close>

text \<open>
  \<^verbatim>\<open>dR = pixels[offset] - colorsR[n]\<close> and so on: \<^verbatim>\<open>undefined - x\<close> is \<^verbatim>\<open>NaN\<close>, and so is every
  sum and product with it.  \<open>None\<close> stands for \<^verbatim>\<open>NaN\<close>.
\<close>

definition sq_dist :: "int option \<times> int option \<times> int option \<Rightarrow> palette \<Rightarrow> nat \<Rightarrow> int option" where
  "sq_dist p pal n = (case p of
     (Some r, Some g, Some b) \<Rightarrow>
       (let dR = r - colorsR pal ! n; dG = g - colorsG pal ! n; dB = b - colorsB pal ! n
        in Some (dR * dR + dG * dG + dB * dB))
   | _ \<Rightarrow> None)"

text \<open>\<^verbatim>\<open>if (minDist > dist) { minDist = dist; idx = n; }\<close>: false when \<^verbatim>\<open>dist\<close> is \<^verbatim>\<open>NaN\<close>.\<close>

definition nearest_step ::
  "int option \<times> int option \<times> int option \<Rightarrow> palette \<Rightarrow> int \<times> nat \<Rightarrow> nat \<Rightarrow> int \<times> nat" where
  "nearest_step p pal st n = (case st of (minDist, idx) \<Rightarrow>
     (case sq_dist p pal n of
        None \<Rightarrow> (minDist, idx)
      | Some dist \<Rightarrow> if minDist > dist then (dist, n) else (minDist, idx)))"

text \<open>The inner loop over \<open>n\<close>, from \<^verbatim>\<open>minDist = 2e8\<close> and \<^verbatim>\<open>idx = 0\<close>.\<close>

definition nearest :: "int option \<times> int option \<times> int option \<Rightarrow> palette \<Rightarrow> nat" where
  "nearest p pal = snd (foldl (nearest_step p pal) (200000000, 0) [0..<4])"

text \<open>The byte offset of pixel \<open>k\<close> as the index loop computes it:
  \<^verbatim>\<open>((i + (k >> 2)) * w + j + (k & 3)) << 2\<close>.\<close>

definition index_offset :: "nat \<Rightarrow> nat \<Rightarrow> nat \<Rightarrow> nat \<Rightarrow> int" where
  "index_offset w i j k =
     js_shl ((int i + js_sar (int k) 2) * int w + int j + js_and (int k) 3) 2"

definition pixel_rgb :: "u8 list \<Rightarrow> int \<Rightarrow> int option \<times> int option \<times> int option" where
  "pixel_rgb pixels offset =
     (pixel pixels offset, pixel pixels (offset + 1), pixel pixels (offset + 2))"

text \<open>\<^verbatim>\<open>compressed[currWord] |= (idx << (k << 1))\<close>\<close>

definition index_step ::
  "u8 list \<Rightarrow> nat \<Rightarrow> nat \<Rightarrow> nat \<Rightarrow> palette \<Rightarrow> nat \<Rightarrow> u32 list \<Rightarrow> nat \<Rightarrow> u32 list" where
  "index_step pixels w i j pal currWord compressed k =
     (let offset = index_offset w i j k;
          idx = nearest (pixel_rgb pixels offset) pal
      in or_store compressed currWord (js_shl (int idx) (nat (js_shl (int k) 1))))"

subsection \<open>Image driver\<close>

text \<open>
  The body of the two block loops.  The state is the output array \<^verbatim>\<open>compressed\<close> and the
  write position \<^verbatim>\<open>currWord\<close>.
\<close>

definition compress_block ::
  "u8 list \<Rightarrow> nat \<Rightarrow> nat \<Rightarrow> nat \<Rightarrow> u32 list \<times> nat \<Rightarrow> u32 list \<times> nat" where
  "compress_block pixels w i j st = (case st of (compressed, currWord) \<Rightarrow>
     (case endpoints (bbox_scan pixels w i j) of (maxColor565, minColor565) \<Rightarrow>
        if maxColor565 = minColor565 then
          (let compressed1 = store compressed currWord (js_or (js_shl maxColor565 16) maxColor565);
               compressed2 = store compressed1 (currWord + 1) 0
           in (compressed2, currWord + 2))
        else
          (case order_endpoints (maxColor565, minColor565) of (maxColor565, minColor565) \<Rightarrow>
             (let pal = build_palette maxColor565 minColor565;
                  compressed1 = store compressed currWord (js_or (js_shl minColor565 16) maxColor565);
                  compressed2 = foldl (index_step pixels w i j pal (currWord + 1)) compressed1 [0..<16]
              in (compressed2, currWord + 2)))))"

text \<open>\<^verbatim>\<open>for (var j = 0; j < w; j += 4) { ... }\<close>\<close>

function row_loop :: "u8 list \<Rightarrow> nat \<Rightarrow> nat \<Rightarrow> nat \<Rightarrow> u32 list \<times> nat \<Rightarrow> u32 list \<times> nat" where
  "row_loop pixels w i j st =
     (if j < w then row_loop pixels w i (j + 4) (compress_block pixels w i j st) else st)"
  by pat_completeness auto
termination
  by (relation "measure (\<lambda>(pixels, w, i, j, st). w - j)") auto

text \<open>\<^verbatim>\<open>for (var i = 0; i < h; i += 4) { ... }\<close>\<close>

function image_loop :: "u8 list \<Rightarrow> nat \<Rightarrow> nat \<Rightarrow> nat \<Rightarrow> u32 list \<times> nat \<Rightarrow> u32 list \<times> nat" where
  "image_loop pixels w h i st =
     (if i < h then image_loop pixels w h (i + 4) (row_loop pixels w i 0 st) else st)"
  by pat_completeness auto
termination
  by (relation "measure (\<lambda>(pixels, w, h, i, st). h - i)") auto

text \<open>
  \<^verbatim>\<open>compress(img)\<close>.  The result \<open>Inr None\<close> is the \<^verbatim>\<open>null\<close> returned for dimensions that
  are not divisible by 4, \<open>Inr (Some c)\<close> is the returned array, and \<open>Inl e\<close> is an
  exception thrown by the allocation of the output array.
\<close>

definition compress :: "image \<Rightarrow> js_error + u32 list option" where
  "compress img =
     (let w = width img; h = height img in
      if js_or (js_and (int w) 3) (js_and (int h) 3) \<noteq> 0 then Inr None
      else
        (case new_Uint32Array (js_sar (int w * int h) 3) of
           Inl e \<Rightarrow> Inl e
         | Inr compressed \<Rightarrow> Inr (Some (fst (image_loop (data img) w h 0 (compressed, 0))))))"

section \<open>The specification's wording of the codec\<close>

text \<open>
  The specification describes the packed value by its bit fields and the expansion as
  bit replication.  These definitions follow its words, in plain integer arithmetic, and
  are compared with the code below.
\<close>

text \<open>The \<open>n\<close>-bit field of \<open>c\<close> that starts at bit \<open>lo\<close>.\<close>

definition field :: "int \<Rightarrow> nat \<Rightarrow> nat \<Rightarrow> int" where
  "field c lo n = c div 2 ^ lo mod 2 ^ n"

text \<open>R in the top 5 bits (low 3 bits of \<open>r\<close> dropped), G in the middle 6 bits (low 2
  bits of \<open>g\<close> dropped), B shifted right by 3 in the bottom 5 bits.\<close>

definition spec_pack565 :: "int \<Rightarrow> int \<Rightarrow> int \<Rightarrow> int" where
  "spec_pack565 r g b = (r div 2 ^ 3) * 2 ^ 11 + (g div 2 ^ 2) * 2 ^ 5 + b div 2 ^ 3"

text \<open>\<^verbatim>\<open>(v << shift) | (v >> (bits - shift))\<close> on unbounded integers.\<close>

definition spec_widen :: "nat \<Rightarrow> nat \<Rightarrow> int \<Rightarrow> int" where
  "spec_widen bits shift v = push_bit shift v OR drop_bit (bits - shift) v"

section \<open>Images, blocks and the output layout\<close>

text \<open>
  The data model of the specification: an image has dimensions divisible by 4 and a
  row-major buffer of \<open>width * height\<close> RGBA pixels; the compressed image is the sequence
  of encoded blocks, two 32-bit words each, in row-major order over the grid of
  \<open>width / 4\<close> by \<open>height / 4\<close> blocks.
\<close>

definition valid_image :: "image \<Rightarrow> bool" where
  "valid_image img \<longleftrightarrow>
     4 dvd width img \<and> 4 dvd height img \<and> length (data img) = 4 * width img * height img"

text \<open>\<open>(i, j)\<close> is the top-left pixel (row \<open>i\<close>, column \<open>j\<close>) of a block of the image.\<close>

definition block_of :: "image \<Rightarrow> nat \<Rightarrow> nat \<Rightarrow> bool" where
  "block_of img i j \<longleftrightarrow> 4 dvd i \<and> 4 dvd j \<and> i < height img \<and> j < width img"

text \<open>The position of the endpoint word of the block at \<open>(i, j)\<close>; its index word follows.\<close>

definition block_word :: "nat \<Rightarrow> nat \<Rightarrow> nat \<Rightarrow> nat" where
  "block_word w i j = 2 * ((i div 4) * (w div 4) + j div 4)"

text \<open>The colour of the pixel in row \<open>y\<close> and column \<open>x\<close>.\<close>

definition rgb_at :: "image \<Rightarrow> nat \<Rightarrow> nat \<Rightarrow> int \<times> int \<times> int" where
  "rgb_at img y x =
     (let p = 4 * (y * width img + x)
      in (uint (data img ! p), uint (data img ! (p + 1)), uint (data img ! (p + 2))))"

text \<open>Pixel \<open>k\<close> (raster order: \<open>k = 4 * row + column\<close>) of the block at \<open>(i, j)\<close>.\<close>

definition block_pixel :: "image \<Rightarrow> nat \<Rightarrow> nat \<Rightarrow> nat \<Rightarrow> int \<times> int \<times> int" where
  "block_pixel img i j k = rgb_at img (i + k div 4) (j + k mod 4)"

text \<open>Squared Euclidean distance of two RGB colours.\<close>

definition dist2 :: "int \<times> int \<times> int \<Rightarrow> int \<times> int \<times> int \<Rightarrow> int" where
  "dist2 p q = (case p of (r, g, b) \<Rightarrow> case q of (r', g', b') \<Rightarrow>
     (r - r') * (r - r') + (g - g') * (g - g') + (b - b') * (b - b'))"

definition entry :: "palette \<Rightarrow> nat \<Rightarrow> int \<times> int \<times> int" where
  "entry pal n = (colorsR pal ! n, colorsG pal ! n, colorsB pal ! n)"

text \<open>The ordered endpoints and the palette of the block at \<open>(i, j)\<close>, as the code
  computes them.\<close>

definition block_endpoints :: "image \<Rightarrow> nat \<Rightarrow> nat \<Rightarrow> int \<times> int" where
  "block_endpoints img i j = order_endpoints (endpoints (bbox_scan (data img) (width img) i j))"

definition block_palette :: "image \<Rightarrow> nat \<Rightarrow> nat \<Rightarrow> palette" where
  "block_palette img i j =
     (case block_endpoints img i j of (maxColor565, minColor565) \<Rightarrow>
        build_palette maxColor565 minColor565)"

text \<open>A block is degenerate when the two endpoints coincide.\<close>

definition degenerate :: "image \<Rightarrow> nat \<Rightarrow> nat \<Rightarrow> bool" where
  "degenerate img i j \<longleftrightarrow>
     fst (endpoints (bbox_scan (data img) (width img) i j)) =
     snd (endpoints (bbox_scan (data img) (width img) i j))"

text \<open>The two words that one run of the loop body writes into a fresh array.\<close>

definition encode_block :: "u8 list \<Rightarrow> nat \<Rightarrow> nat \<Rightarrow> nat \<Rightarrow> u32 \<times> u32" where
  "encode_block pixels w i j =
     (case compress_block pixels w i j ([0, 0], 0) of (c, n) \<Rightarrow> (c ! 0, c ! 1))"

text \<open>The bits that pixel \<open>k\<close> contributes to the index word.\<close>

definition index_bits :: "u8 list \<Rightarrow> nat \<Rightarrow> nat \<Rightarrow> nat \<Rightarrow> palette \<Rightarrow> nat \<Rightarrow> u32" where
  "index_bits pixels w i j pal k =
     word_of_int (js_shl (int (nearest (pixel_rgb pixels (index_offset w i j k)) pal))
                         (nat (js_shl (int k) 1)))"

text \<open>The index word of a non-degenerate block: the contributions of its 16 pixels,
  combined by bitwise OR.\<close>

definition index_word :: "u8 list \<Rightarrow> nat \<Rightarrow> nat \<Rightarrow> nat \<Rightarrow> palette \<Rightarrow> u32" where
  "index_word pixels w i j pal =
     foldl (\<lambda>a k. a OR index_bits pixels w i j pal k) 0 [0..<16]"

text \<open>
  The invariant of the bounding-box scan, per channel: either no pixel has been seen
  (\<open>max = 0\<close> and \<open>min = 255\<close>), or \<open>0 \<le> min \<le> max \<le> 255\<close>.
\<close>

definition chan_inv :: "int \<Rightarrow> int \<Rightarrow> bool" where
  "chan_inv mx mn \<longleftrightarrow> (mx = 0 \<and> mn = 255) \<or> (0 \<le> mn \<and> mn \<le> mx \<and> mx \<le> 255)"

definition bbox_inv :: "bbox \<Rightarrow> bool" where
  "bbox_inv bb \<longleftrightarrow>
     chan_inv (maxR bb) (minR bb) \<and> chan_inv (maxG bb) (minG bb) \<and> chan_inv (maxB bb) (minB bb)"

definition bbox_seen :: "bbox \<Rightarrow> bool" where
  "bbox_seen bb \<longleftrightarrow>
     0 \<le> minR bb \<and> minR bb \<le> maxR bb \<and> maxR bb \<le> 255 \<and>
     0 \<le> minG bb \<and> minG bb \<le> maxG bb \<and> maxG bb \<le> 255 \<and>
     0 \<le> minB bb \<and> minB bb \<le> maxB bb \<and> maxB bb \<le> 255"

text \<open>
  A sample image of 8 by 4 pixels, that is two blocks: the left block has the single
  colour \<open>(10, 200, 30)\<close>; the right block is red in its upper two rows and blue in its
  lower two rows.  All alpha bytes are 255.
\<close>

definition sample_row :: "nat \<Rightarrow> u8 list" where
  "sample_row y =
     concat (replicate 4 [10, 200, 30, 255]) @
     concat (replicate 4 (if y < 2 then [255, 0, 0, 255] else [0, 0, 255, 255]))"

definition sample_image :: image where
  "sample_image = \<lparr>width = 8, height = 4, data = concat (map sample_row [0..<4])\<rparr>"

text \<open>
  Two very large images.  The first has 65536 by 32768 black pixels, that is
  \<open>2 ^ 31\<close> pixels.  The second is 4 pixels wide and \<open>2 ^ 27 + 4\<close> pixels high; it is black
  except for one white pixel, the first pixel of its last block, which starts at row
  \<open>2 ^ 27\<close> and at byte offset \<open>2 ^ 31\<close> of the buffer.
\<close>

definition huge_black :: image where
  "huge_black = \<lparr>width = 65536, height = 32768, data = replicate (4 * 65536 * 32768) 0\<rparr>"

definition tall_image :: image where
  "tall_image = \<lparr>width = 4, height = 134217732,
     data = replicate 2147483648 0 @ [255, 255, 255, 255] @ replicate 60 0\<rparr>"

declare row_loop.simps [simp del]
declare image_loop.simps [simp del]
declare fill_loop.simps [simp del]

section \<open>Arithmetic of the 32-bit operators\<close>

lemma ToInt32_id: "- (2^31) \<le> x \<Longrightarrow> x < 2^31 \<Longrightarrow> ToInt32 x = x"
  by (simp add: ToInt32_def)

lemma and_push_mask: "(x::int) AND push_bit k (mask m) = push_bit k (take_bit m (drop_bit k x))"
  by (rule bit_eqI) (auto simp: bit_simps)

lemma and_mask_mod: "(x::int) AND mask m = x mod 2 ^ m"
  by (simp add: take_bit_eq_mask [symmetric] take_bit_eq_mod)

lemma and_248: "(x::int) AND 248 = 8 * (x div 8 mod 32)"
proof -
  have "(248::int) = push_bit 3 (mask 5)" by (simp add: mask_eq_exp_minus_1)
  then show ?thesis
    by (simp only: and_push_mask) (simp add: push_bit_eq_mult take_bit_eq_mod drop_bit_eq_div)
qed

lemma and_252: "(x::int) AND 252 = 4 * (x div 4 mod 64)"
proof -
  have "(252::int) = push_bit 2 (mask 6)" by (simp add: mask_eq_exp_minus_1)
  then show ?thesis
    by (simp only: and_push_mask) (simp add: push_bit_eq_mult take_bit_eq_mod drop_bit_eq_div)
qed

lemma and_63: "(x::int) AND 63 = x mod 64"
  using and_mask_mod [of x 6] by (simp add: mask_eq_exp_minus_1)

lemma and_31: "(x::int) AND 31 = x mod 32"
  using and_mask_mod [of x 5] by (simp add: mask_eq_exp_minus_1)

lemma and_3: "(x::int) AND 3 = x mod 4"
  using and_mask_mod [of x 2] by (simp add: mask_eq_exp_minus_1)

lemma or_add_lt:
  assumes "0 \<le> b" "b < 2 ^ n"
  shows "(a::int) * 2 ^ n OR b = a * 2 ^ n + b"
proof -
  have b: "take_bit n b = b" using assms by (simp add: take_bit_int_eq_self)
  have "push_bit n a + take_bit n b = push_bit n a OR take_bit n b"
    by (rule disjunctive_add) (auto simp: bit_simps)
  then show ?thesis by (simp add: b push_bit_eq_mult)
qed

text \<open>The operators on small non-negative operands.\<close>

lemma js_sar_small: "0 \<le> x \<Longrightarrow> x < 2 ^ 31 \<Longrightarrow> n < 32 \<Longrightarrow> js_sar x n = x div 2 ^ n"
  by (simp add: js_sar_def ToInt32_id drop_bit_eq_div)

lemma js_shl_small:
  "0 \<le> x \<Longrightarrow> x * 2 ^ n < 2 ^ 31 \<Longrightarrow> n < 32 \<Longrightarrow> js_shl x n = x * 2 ^ n"
proof -
  assume a: "0 \<le> x" "x * 2 ^ n < 2 ^ 31" "n < 32"
  have "x * 1 \<le> x * 2 ^ n" using a(1) by (intro mult_left_mono) simp_all
  then have x: "x < 2 ^ 31" using a(2) by simp
  have "0 \<le> x * 2 ^ n" using a(1) by simp
  then have "ToInt32 (x * 2 ^ n) = x * 2 ^ n" using a(2) by (intro ToInt32_id) linarith+
  moreover have "ToInt32 x = x" using a(1) x by (intro ToInt32_id) linarith+
  ultimately show ?thesis using a(3) by (simp add: js_shl_def push_bit_eq_mult)
qed

lemma js_or_small:
  "0 \<le> a \<Longrightarrow> a * 2 ^ n < 2 ^ 31 \<Longrightarrow> 0 \<le> b \<Longrightarrow> b < 2 ^ n \<Longrightarrow> n < 32 \<Longrightarrow>
     js_or (a * 2 ^ n) b = a * 2 ^ n + b"
proof -
  assume a: "0 \<le> a" "a * 2 ^ n < 2 ^ 31" "0 \<le> b" "b < 2 ^ n" "n < 32"
  have "(2::int) ^ n \<le> 2 ^ 31" using a(5) by (intro power_increasing) simp_all
  then have "b < 2 ^ 31" using a(4) by linarith
  then have b: "ToInt32 b = b" using a(3) by (intro ToInt32_id) linarith+
  have "0 \<le> a * 2 ^ n" using a(1) by simp
  then have "ToInt32 (a * 2 ^ n) = a * 2 ^ n" using a(2) by (intro ToInt32_id) linarith+
  then show ?thesis using a(3,4) by (simp only: js_or_def b or_add_lt)
qed

section \<open>The colour-space codec\<close>

lemma toRGB565_arith:
  assumes "0 \<le> r" "r < 256" "0 \<le> g" "g < 256" "0 \<le> b" "b < 256"
  shows "toRGB565 r g b = (r div 8) * 2048 + (g div 4) * 32 + b div 8"
proof -
  have r: "js_shl (js_and r 0xf8) 8 = (r div 8) * 2048"
    using assms by (simp add: js_shl_def js_and_def ToInt32_id and_248 push_bit_eq_mult)
  have g: "js_shl (js_and g 0xfc) 3 = (g div 4) * 32"
    using assms by (simp add: js_shl_def js_and_def ToInt32_id and_252 push_bit_eq_mult)
  have b: "js_sar b 3 = b div 8"
    using assms by (simp add: js_sar_small)
  have gb: "0 \<le> g div 4" "g div 4 < 64" "0 \<le> b div 8" "b div 8 < 32" "0 \<le> r div 8" "r div 8 < 32"
    using assms by auto
  have 1: "js_or ((r div 8) * 2048) ((g div 4) * 32) = (r div 8) * 2048 + (g div 4) * 32"
    using js_or_small [of "r div 8" 11 "(g div 4) * 32"] gb by simp
  have e2: "(r div 8) * 2048 + (g div 4) * 32 = ((r div 8) * 64 + g div 4) * 2 ^ 5" by simp
  have 2: "js_or ((r div 8) * 2048 + (g div 4) * 32) (b div 8) = (r div 8) * 2048 + (g div 4) * 32 + b div 8"
    unfolding e2 by (rule js_or_small) (use gb in simp_all)
  show ?thesis
    unfolding toRGB565_def r g b 1 2 ..
qed

lemma toRGB565_range:
  assumes "0 \<le> r" "r < 256" "0 \<le> g" "g < 256" "0 \<le> b" "b < 256"
  shows "0 \<le> toRGB565 r g b \<and> toRGB565 r g b < 65536"
proof -
  define R G B where "R = r div 8" and "G = g div 4" and "B = b div 8"
  have bnd: "0 \<le> G" "G < 64" "0 \<le> B" "B < 32" "0 \<le> R" "R < 32"
    using assms by (auto simp: R_def G_def B_def)
  have t: "toRGB565 r g b = R * 2048 + G * 32 + B"
    using assms by (simp add: toRGB565_arith R_def G_def B_def)
  show ?thesis unfolding t using bnd by linarith
qed

lemma rFromRGB565_arith:
  assumes "0 \<le> c" "c < 65536"
  shows "rFromRGB565 c = 8 * (c div 2048) + c div 2048 div 4"
proof -
  have v: "0 \<le> c div 2048" "c div 2048 < 32" using assms by auto
  have 1: "js_sar c 11 = c div 2048" using assms by (simp add: js_sar_small)
  have 2: "js_shl (c div 2048) 3 = (c div 2048) * 2 ^ 3" by (rule js_shl_small) (use v in simp_all)
  have 3: "js_sar (c div 2048) 2 = c div 2048 div 4" using v by (simp add: js_sar_small)
  have 4: "js_or ((c div 2048) * 2 ^ 3) (c div 2048 div 4) = (c div 2048) * 2 ^ 3 + c div 2048 div 4"
    by (rule js_or_small) (use v in simp_all)
  show ?thesis unfolding rFromRGB565_def Let_def 1 2 3 4 by simp
qed

lemma gFromRGB565_arith:
  assumes "0 \<le> c" "c < 65536"
  shows "gFromRGB565 c = 4 * (c div 32 mod 64) + c div 32 mod 64 div 16"
proof -
  define v where "v = c div 32 mod 64"
  have v: "0 \<le> v" "v < 64" by (simp_all add: v_def)
  have 0: "js_sar c 5 = c div 32" using assms by (simp add: js_sar_small)
  have c32: "0 \<le> c div 32" "c div 32 < 2048" using assms by auto
  have 1: "js_and (c div 32) 0x3f = v" using c32 by (simp add: js_and_def ToInt32_id and_63 v_def)
  have 2: "js_shl v 2 = v * 2 ^ 2" by (rule js_shl_small) (use v in simp_all)
  have 3: "js_sar v 4 = v div 16" using v by (simp add: js_sar_small)
  have 4: "js_or (v * 2 ^ 2) (v div 16) = v * 2 ^ 2 + v div 16"
    by (rule js_or_small) (use v in simp_all)
  show ?thesis unfolding gFromRGB565_def Let_def 0 1 2 3 4 by (simp add: v_def)
qed

lemma bFromRGB565_arith:
  assumes "0 \<le> c" "c < 65536"
  shows "bFromRGB565 c = 8 * (c mod 32) + c mod 32 div 4"
proof -
  define v where "v = c mod 32"
  have v: "0 \<le> v" "v < 32" by (simp_all add: v_def)
  have 1: "js_and c 0x1f = v" using assms by (simp add: js_and_def ToInt32_id and_31 v_def)
  have 2: "js_shl v 3 = v * 2 ^ 3" by (rule js_shl_small) (use v in simp_all)
  have 3: "js_sar v 2 = v div 4" using v by (simp add: js_sar_small)
  have 4: "js_or (v * 2 ^ 3) (v div 4) = v * 2 ^ 3 + v div 4"
    by (rule js_or_small) (use v in simp_all)
  show ?thesis unfolding bFromRGB565_def Let_def 1 2 3 4 by (simp add: v_def)
qed

lemma widen_bounds:
  fixes v :: int
  shows "0 \<le> v \<Longrightarrow> v < 32 \<Longrightarrow> 0 \<le> 8 * v + v div 4 \<and> 8 * v + v div 4 \<le> 255"
    and "0 \<le> v \<Longrightarrow> v < 64 \<Longrightarrow> 0 \<le> 4 * v + v div 16 \<and> 4 * v + v div 16 \<le> 255"
proof -
  { assume a: "0 \<le> v" "v < 32"
    define q where "q = v div 4"
    have "0 \<le> q" "q \<le> 7" using a by (auto simp: q_def)
    then show "0 \<le> 8 * v + v div 4 \<and> 8 * v + v div 4 \<le> 255"
      unfolding q_def [symmetric] using a by linarith }
  { assume a: "0 \<le> v" "v < 64"
    define q where "q = v div 16"
    have "0 \<le> q" "q \<le> 3" using a by (auto simp: q_def)
    then show "0 \<le> 4 * v + v div 16 \<and> 4 * v + v div 16 \<le> 255"
      unfolding q_def [symmetric] using a by linarith }
qed

lemma unpack_range:
  assumes "0 \<le> c" "c < 65536"
  shows "0 \<le> rFromRGB565 c \<and> rFromRGB565 c \<le> 255" "0 \<le> gFromRGB565 c \<and> gFromRGB565 c \<le> 255"
    "0 \<le> bFromRGB565 c \<and> bFromRGB565 c \<le> 255"
proof -
  have "0 \<le> c div 2048" "c div 2048 < 32" using assms by auto
  then show "0 \<le> rFromRGB565 c \<and> rFromRGB565 c \<le> 255"
    unfolding rFromRGB565_arith [OF assms] by (rule widen_bounds)
  have "0 \<le> c div 32 mod 64" "c div 32 mod 64 < 64" by simp_all
  then show "0 \<le> gFromRGB565 c \<and> gFromRGB565 c \<le> 255"
    unfolding gFromRGB565_arith [OF assms] by (rule widen_bounds)
  have "0 \<le> c mod 32" "c mod 32 < 32" by simp_all
  then show "0 \<le> bFromRGB565 c \<and> bFromRGB565 c \<le> 255"
    unfolding bFromRGB565_arith [OF assms] by (rule widen_bounds)
qed

lemma roundtrip_fields:
  assumes "0 \<le> r" "r < 256" "0 \<le> g" "g < 256" "0 \<le> b" "b < 256"
  shows "toRGB565 r g b div 2048 = r div 8" "toRGB565 r g b div 32 mod 64 = g div 4"
    "toRGB565 r g b mod 32 = b div 8"
proof -
  define R G B where "R = r div 8" and "G = g div 4" and "B = b div 8"
  have bnd: "0 \<le> G" "G < 64" "0 \<le> B" "B < 32" "0 \<le> R" "R < 32"
    using assms by (auto simp: R_def G_def B_def)
  have t: "toRGB565 r g b = R * 2048 + G * 32 + B"
    using assms by (simp add: toRGB565_arith R_def G_def B_def)
  have e: "R * 2048 + G * 32 + B = B + (R * 64 + G) * 32" by simp
  have e': "R * 2048 + G * 32 + B = (G * 32 + B) + R * 2048" by simp
  have d1: "((G * 32 + B) + R * 2048) div 2048 = (G * 32 + B) div 2048 + R" by simp
  have z1: "(G * 32 + B) div 2048 = 0" using bnd by (intro div_pos_pos_trivial) linarith+
  show "toRGB565 r g b div 2048 = r div 8"
    unfolding t R_def [symmetric] e' d1 z1 by simp
  have d2: "(B + (R * 64 + G) * 32) div 32 = B div 32 + (R * 64 + G)" by simp
  have z2: "B div 32 = 0" using bnd by (intro div_pos_pos_trivial) linarith+
  have m2: "(0 + (R * 64 + G)) mod 64 = G mod 64" by simp
  have g2: "G mod 64 = G" using bnd by (intro mod_pos_pos_trivial) linarith+
  show "toRGB565 r g b div 32 mod 64 = g div 4"
    unfolding t G_def [symmetric] e d2 z2 m2 g2 ..
  have m3: "(B + (R * 64 + G) * 32) mod 32 = B mod 32" by (rule mod_mult_self1)
  have g3: "B mod 32 = B" using bnd by (intro mod_pos_pos_trivial) linarith+
  show "toRGB565 r g b mod 32 = b div 8"
    unfolding t B_def [symmetric] e m3 g3 ..
qed

lemma spec_widen_5_3:
  assumes "0 \<le> v" "v < 32"
  shows "spec_widen 5 3 v = 8 * v + v div 4"
proof -
  have "0 \<le> v div 4" "v div 4 < 2 ^ 3" using assms by auto
  then have "v * 2 ^ 3 OR v div 4 = v * 2 ^ 3 + v div 4" by (rule or_add_lt)
  then show ?thesis by (simp add: spec_widen_def push_bit_eq_mult drop_bit_eq_div)
qed

lemma spec_widen_6_2:
  assumes "0 \<le> v" "v < 64"
  shows "spec_widen 6 2 v = 4 * v + v div 16"
proof -
  have "0 \<le> v div 16" "v div 16 < 2 ^ 2" using assms by auto
  then have "v * 2 ^ 2 OR v div 16 = v * 2 ^ 2 + v div 16" by (rule or_add_lt)
  then show ?thesis by (simp add: spec_widen_def push_bit_eq_mult drop_bit_eq_div)
qed

text \<open>
  C8: for 8-bit channels, \<open>toRGB565 r g b\<close> is the 16-bit value whose bits 15..11 hold the
  top five bits of \<open>r\<close>, whose bits 10..5 hold the top six bits of \<open>g\<close> and whose bits
  4..0 hold \<open>b\<close> shifted right by 3; and each of \<open>rFromRGB565\<close>, \<open>gFromRGB565\<close>,
  \<open>bFromRGB565\<close> takes the 5-, 6- or 5-bit field \<open>v\<close> of a 16-bit colour and returns
  \<open>(v << shift) | (v >> (bits - shift))\<close>, with \<open>(bits, shift)\<close> being \<open>(5, 3)\<close>, \<open>(6, 2)\<close>
  and \<open>(5, 3)\<close>.
\<close>

theorem codec_layout:
  assumes "0 \<le> r" "r < 256" "0 \<le> g" "g < 256" "0 \<le> b" "b < 256" "0 \<le> c" "c < 2 ^ 16"
  shows "toRGB565 r g b = spec_pack565 r g b \<and>
     0 \<le> toRGB565 r g b \<and> toRGB565 r g b < 2 ^ 16 \<and>
     field (toRGB565 r g b) 11 5 = r div 2 ^ 3 \<and>
     field (toRGB565 r g b) 5 6 = g div 2 ^ 2 \<and>
     field (toRGB565 r g b) 0 5 = b div 2 ^ 3 \<and>
     rFromRGB565 c = spec_widen 5 3 (field c 11 5) \<and>
     gFromRGB565 c = spec_widen 6 2 (field c 5 6) \<and>
     bFromRGB565 c = spec_widen 5 3 (field c 0 5)"
proof -
  note a = assms(1-6)
  note f = roundtrip_fields [OF a]
  have r5: "r div 8 mod 32 = r div 8" using a by (intro mod_pos_pos_trivial) auto
  have b5: "b div 8 mod 32 = b div 8" using a by (intro mod_pos_pos_trivial) auto
  have g6: "g div 4 mod 64 = g div 4" using a by (intro mod_pos_pos_trivial) auto
  have 1: "toRGB565 r g b = spec_pack565 r g b"
    by (simp add: toRGB565_arith [OF a] spec_pack565_def)
  have 2: "0 \<le> toRGB565 r g b \<and> toRGB565 r g b < 2 ^ 16"
    using toRGB565_range [OF a] by simp
  have 3: "field (toRGB565 r g b) 11 5 = r div 2 ^ 3"
    by (simp add: field_def f r5)
  have 4: "field (toRGB565 r g b) 5 6 = g div 2 ^ 2"
    by (simp add: field_def f)
  have 5: "field (toRGB565 r g b) 0 5 = b div 2 ^ 3"
    by (simp add: field_def f)
  have c: "0 \<le> c" "c < 65536" using assms by simp_all
  have v: "0 \<le> c div 2048" "c div 2048 < 32" using c by auto
  have m: "c div 2048 mod 32 = c div 2048" using v by (intro mod_pos_pos_trivial)
  have 6: "rFromRGB565 c = spec_widen 5 3 (field c 11 5)"
    using v by (simp add: field_def m spec_widen_5_3 rFromRGB565_arith [OF c])
  have 7: "gFromRGB565 c = spec_widen 6 2 (field c 5 6)"
    by (simp add: field_def spec_widen_6_2 gFromRGB565_arith [OF c])
  have 8: "bFromRGB565 c = spec_widen 5 3 (field c 0 5)"
    by (simp add: field_def spec_widen_5_3 bFromRGB565_arith [OF c])
  show ?thesis using 1 2 3 4 5 6 7 8 by blast
qed

theorem codec_layout_witness:
  "(0::int) \<le> 200 \<and> (200::int) < 256 \<and> (0::int) \<le> 100 \<and> (100::int) < 256 \<and> (0::int) \<le> 50 \<and> (50::int) < 256
   \<and> (0::int) \<le> 52006 \<and> (52006::int) < 2 ^ 16 \<and>
   toRGB565 200 100 50 = spec_pack565 200 100 50 \<and> toRGB565 200 100 50 = 52006 \<and>
   rFromRGB565 52006 = spec_widen 5 3 (field 52006 11 5) \<and> rFromRGB565 52006 = 206 \<and>
   gFromRGB565 52006 = spec_widen 6 2 (field 52006 5 6) \<and> gFromRGB565 52006 = 101 \<and>
   bFromRGB565 52006 = spec_widen 5 3 (field 52006 0 5) \<and> bFromRGB565 52006 = 49"
  using codec_layout [of 200 100 50 52006]
  by (simp add: spec_pack565_def spec_widen_def field_def)

text \<open>
  C2: packing 8-bit channels and unpacking them again changes R and B by at most 7 and G
  by at most 3 (the bounds 4 and 2 do not hold, see the counterexample below); white
  packs to \<open>0xFFFF\<close> and unpacks to exactly \<open>(255, 255, 255)\<close>.
\<close>

theorem roundtrip_error:
  assumes "0 \<le> r" "r < 256" "0 \<le> g" "g < 256" "0 \<le> b" "b < 256" 
  shows "\<bar>rFromRGB565 (toRGB565 r g b) - r\<bar> \<le> 7 \<and>
         \<bar>gFromRGB565 (toRGB565 r g b) - g\<bar> \<le> 3 \<and>
         \<bar>bFromRGB565 (toRGB565 r g b) - b\<bar> \<le> 7 \<and>
         toRGB565 255 255 255 = 0xFFFF \<and>
         rFromRGB565 0xFFFF = 255 \<and> gFromRGB565 0xFFFF = 255 \<and> bFromRGB565 0xFFFF = 255"
proof -
  note f = roundtrip_fields [OF assms]
  note t = toRGB565_range [OF assms]
  have c: "0 \<le> toRGB565 r g b" "toRGB565 r g b < 65536" using t by simp_all
  define R G B where "R = r div 8" and "G = g div 4" and "B = b div 8"
  define R' G' B' where "R' = R div 4" and "G' = G div 16" and "B' = B div 4"
  have bnd: "8 * R \<le> r" "r \<le> 8 * R + 7" "4 * G \<le> g" "g \<le> 4 * G + 3" "8 * B \<le> b" "b \<le> 8 * B + 7"
    unfolding R_def G_def B_def by presburger+
  have bnd': "0 \<le> R'" "R' \<le> 7" "0 \<le> G'" "G' \<le> 3" "0 \<le> B'" "B' \<le> 7"
    using assms unfolding R'_def G'_def B'_def R_def G_def B_def by auto
  have 1: "\<bar>rFromRGB565 (toRGB565 r g b) - r\<bar> \<le> 7"
    unfolding rFromRGB565_arith [OF c] f R_def [symmetric] R'_def [symmetric]
    using bnd bnd' by linarith
  have 2: "\<bar>gFromRGB565 (toRGB565 r g b) - g\<bar> \<le> 3"
    unfolding gFromRGB565_arith [OF c] f G_def [symmetric] G'_def [symmetric]
    using bnd bnd' by linarith
  have 3: "\<bar>bFromRGB565 (toRGB565 r g b) - b\<bar> \<le> 7"
    unfolding bFromRGB565_arith [OF c] f B_def [symmetric] B'_def [symmetric]
    using bnd bnd' by linarith
  have 4: "toRGB565 255 255 255 = 0xFFFF" by (simp add: toRGB565_arith)
  have 5: "rFromRGB565 0xFFFF = 255" "gFromRGB565 0xFFFF = 255" "bFromRGB565 0xFFFF = 255"
    by (simp_all add: rFromRGB565_arith gFromRGB565_arith bFromRGB565_arith)
  show ?thesis using 1 2 3 4 5 by blast
qed

theorem roundtrip_error_witness:
  "(0::int) \<le> 7 \<and> (7::int) < 256 \<and> (0::int) \<le> 3 \<and> (3::int) < 256 \<and>
   \<bar>rFromRGB565 (toRGB565 7 3 7) - 7\<bar> \<le> 7 \<and>
   \<bar>gFromRGB565 (toRGB565 7 3 7) - 3\<bar> \<le> 3 \<and>
   \<bar>bFromRGB565 (toRGB565 7 3 7) - 7\<bar> \<le> 7"
  using roundtrip_error [of 7 3 7] by simp

text \<open>
  The colour \<open>(7, 3, 7)\<close> packs to 0 and unpacks to \<open>(0, 0, 0)\<close>: the errors are 7, 3
  and 7, above the bounds 4, 2 and 4.
\<close>

theorem roundtrip_error_counterexample:
  "\<not> (\<bar>rFromRGB565 (toRGB565 7 3 7) - 7\<bar> \<le> 4 \<and>
       \<bar>gFromRGB565 (toRGB565 7 3 7) - 3\<bar> \<le> 2 \<and>
       \<bar>bFromRGB565 (toRGB565 7 3 7) - 7\<bar> \<le> 4)"
  by (simp add: toRGB565_arith rFromRGB565_arith)

section \<open>Stores into the output array\<close>



lemma word_of_int_mod32: "(word_of_int (y mod 2 ^ 32) :: u32) = word_of_int y"
  by (simp add: word_of_int_eq_iff take_bit_eq_mod)

lemma word_of_int_ToInt32: "(word_of_int (ToInt32 x) :: u32) = word_of_int x"
proof -
  have "(word_of_int (ToInt32 x) :: u32) = word_of_int ((x + 2 ^ 31) mod 2 ^ 32) - word_of_int (2 ^ 31)"
    unfolding ToInt32_def by (rule of_int_diff)
  also have "\<dots> = word_of_int (x + 2 ^ 31) - word_of_int (2 ^ 31)"
    by (simp only: word_of_int_mod32)
  also have "\<dots> = word_of_int x" by simp
  finally show ?thesis .
qed

lemma or_store_word: "(word_of_int (js_or (uint (x :: u32)) v) :: u32) = x OR word_of_int v"
  by (simp add: js_or_def of_int_or_eq word_of_int_ToInt32)


lemma shl_word: "n < 32 \<Longrightarrow> (word_of_int (js_shl a n) :: u32) = push_bit n (word_of_int a)"
  by (simp add: js_shl_def word_of_int_ToInt32 of_int_push_bit)


section \<open>One block\<close>

lemma length_store [simp]: "length (store a i v) = length a"
  by (simp add: store_def)

lemma length_or_store [simp]: "length (or_store a i v) = length a"
  by (simp add: or_store_def)

lemma or_store_eq:
  "or_store a i v = (if i < length a then a[i := a ! i OR word_of_int v] else a)"
  by (simp add: or_store_def or_store_word)

lemma index_step_eq:
  "index_step pixels w i j pal cw c k =
     (if cw < length c then c[cw := c ! cw OR index_bits pixels w i j pal k] else c)"
  by (simp add: index_step_def Let_def or_store_eq index_bits_def)

lemma index_fold:
  "foldl (index_step pixels w i j pal cw) c ks =
     (if cw < length c
      then c[cw := foldl (\<lambda>a k. a OR index_bits pixels w i j pal k) (c ! cw) ks]
      else c)"
proof (induction ks arbitrary: c)
  case Nil
  show ?case by simp
next
  case (Cons k ks)
  define c1 where "c1 = index_step pixels w i j pal cw c k"
  have c1: "c1 = (if cw < length c then c[cw := c ! cw OR index_bits pixels w i j pal k] else c)"
    unfolding c1_def by (rule index_step_eq)
  have "foldl (index_step pixels w i j pal cw) c (k # ks) =
          foldl (index_step pixels w i j pal cw) c1 ks"
    by (simp add: c1_def)
  also have "\<dots> = (if cw < length c1
      then c1[cw := foldl (\<lambda>a k. a OR index_bits pixels w i j pal k) (c1 ! cw) ks]
      else c1)"
    by (rule Cons.IH)
  also have "\<dots> = (if cw < length c
      then c[cw := foldl (\<lambda>a k. a OR index_bits pixels w i j pal k) (c ! cw) (k # ks)]
      else c)"
    by (simp add: c1)
  finally show ?case .
qed

lemma foldl_or_init:
  "foldl (\<lambda>a k. a OR f k) (a :: u32) ks = a OR foldl (\<lambda>a k. a OR f k) 0 ks"
proof (induction ks arbitrary: a)
  case Nil
  show ?case by simp
next
  case (Cons k ks)
  have "foldl (\<lambda>a k. a OR f k) (a OR f k) ks = (a OR f k) OR foldl (\<lambda>a k. a OR f k) 0 ks"
    by (rule Cons.IH)
  moreover have "foldl (\<lambda>a k. a OR f k) (f k) ks = f k OR foldl (\<lambda>a k. a OR f k) 0 ks"
    by (rule Cons.IH)
  ultimately show ?case by (simp add: or.assoc)
qed

lemma length_index_fold [simp]:
  "length (foldl (index_step pixels w i j pal cw) c ks) = length c"
  by (simp add: index_fold)

lemma encode_block_eq:
  "encode_block pixels w i j =
     (case endpoints (bbox_scan pixels w i j) of (maxColor565, minColor565) \<Rightarrow>
        if maxColor565 = minColor565
        then (word_of_int (js_or (js_shl maxColor565 16) maxColor565), 0)
        else (case order_endpoints (maxColor565, minColor565) of (mx, mn) \<Rightarrow>
               (word_of_int (js_or (js_shl mn 16) mx),
                index_word pixels w i j (build_palette mx mn))))"
  by (simp add: encode_block_def compress_block_def store_def index_fold index_word_def Let_def
      split: prod.splits)

lemma compress_block_run:
  assumes "cw + 1 < length c" "c ! (cw + 1) = 0"
  shows "compress_block pixels w i j (c, cw) =
     (c[cw := fst (encode_block pixels w i j), cw + 1 := snd (encode_block pixels w i j)], cw + 2)"
proof -
  have z: "(0 :: u32) OR x = x" for x by simp
  show ?thesis
    using assms
    by (simp add: encode_block_eq compress_block_def store_def index_fold index_word_def Let_def
        foldl_or_init [of _ "0 OR _"] split: prod.splits)
qed

lemma compress_block_length:
  "length (fst (compress_block pixels w i j (c, cw))) = length c"
  "snd (compress_block pixels w i j (c, cw)) = cw + 2"
  by (simp_all add: compress_block_def Let_def split: prod.splits)


section \<open>The block loops\<close>

lemma row_loop_run:
  assumes "a \<le> b" "cw + 2 * (b - a) \<le> length c" "\<forall>n. cw \<le> n \<and> n < length c \<longrightarrow> c ! n = 0"
  shows "\<exists>c'. row_loop pixels (4 * b) i (4 * a) (c, cw) = (c', cw + 2 * (b - a)) \<and>
           length c' = length c \<and>
           (\<forall>n<cw. c' ! n = c ! n) \<and>
           (\<forall>n. cw + 2 * (b - a) \<le> n \<and> n < length c \<longrightarrow> c' ! n = 0) \<and>
           (\<forall>a'. a \<le> a' \<and> a' < b \<longrightarrow>
              c' ! (cw + 2 * (a' - a)) = fst (encode_block pixels (4 * b) i (4 * a')) \<and>
              c' ! (cw + 2 * (a' - a) + 1) = snd (encode_block pixels (4 * b) i (4 * a')))"
  using assms
proof (induction "b - a" arbitrary: a c cw)
  case 0
  then have "a = b" by simp
  then show ?case using "0.prems" by (auto simp add: row_loop.simps [of pixels "4 * b" i "4 * b"])
next
  case (Suc d)
  define e1 where "e1 = fst (encode_block pixels (4 * b) i (4 * a))"
  define e2 where "e2 = snd (encode_block pixels (4 * b) i (4 * a))"
  define c1 where "c1 = c[cw := e1, cw + 1 := e2]"
  have ab: "a < b" "d = b - (a + 1)" "a + 1 \<le> b" using Suc.hyps(2) by simp_all
  have cw1: "cw + 1 < length c" using Suc.prems(2) ab by simp
  have z1: "c ! (cw + 1) = 0" using Suc.prems(3) cw1 by simp
  have step: "compress_block pixels (4 * b) i (4 * a) (c, cw) = (c1, cw + 2)"
    unfolding c1_def e1_def e2_def using cw1 z1 by (rule compress_block_run)
  have unfold: "row_loop pixels (4 * b) i (4 * a) (c, cw) =
      row_loop pixels (4 * b) i (4 * (a + 1)) (c1, cw + 2)"
    using ab(1) by (subst row_loop.simps) (simp add: step add.commute)
  have len1: "length c1 = length c" by (simp add: c1_def)
  have p2: "cw + 2 + 2 * (b - (a + 1)) \<le> length c1" using Suc.prems(2) ab by (simp add: len1)
  have p3: "\<forall>n. cw + 2 \<le> n \<and> n < length c1 \<longrightarrow> c1 ! n = 0"
    using Suc.prems(3) by (simp add: c1_def)
  obtain c' where c': "row_loop pixels (4 * b) i (4 * (a + 1)) (c1, cw + 2) = (c', cw + 2 + 2 * (b - (a + 1)))"
      "length c' = length c1"
      "\<forall>n<cw + 2. c' ! n = c1 ! n"
      "\<forall>n. cw + 2 + 2 * (b - (a + 1)) \<le> n \<and> n < length c1 \<longrightarrow> c' ! n = 0"
      "\<forall>a'. a + 1 \<le> a' \<and> a' < b \<longrightarrow>
              c' ! (cw + 2 + 2 * (a' - (a + 1))) = fst (encode_block pixels (4 * b) i (4 * a')) \<and>
              c' ! (cw + 2 + 2 * (a' - (a + 1)) + 1) = snd (encode_block pixels (4 * b) i (4 * a'))"
    using Suc.hyps(1) [OF ab(2) ab(3) p2 p3] by blast
  have eqn: "cw + 2 + 2 * (b - (a + 1)) = cw + 2 * (b - a)" using ab by simp
  have r1: "row_loop pixels (4 * b) i (4 * a) (c, cw) = (c', cw + 2 * (b - a))"
    using unfold c'(1) eqn by simp
  have r2: "length c' = length c" using c'(2) len1 by simp
  have r3: "\<forall>n<cw. c' ! n = c ! n"
    using c'(3) by (simp add: c1_def)
  have r4: "\<forall>n. cw + 2 * (b - a) \<le> n \<and> n < length c \<longrightarrow> c' ! n = 0"
    using c'(4) eqn len1 by simp
  have r5: "c' ! (cw + 2 * (a' - a)) = fst (encode_block pixels (4 * b) i (4 * a')) \<and>
            c' ! (cw + 2 * (a' - a) + 1) = snd (encode_block pixels (4 * b) i (4 * a'))"
    if a': "a \<le> a'" "a' < b" for a'
  proof (cases "a' = a")
    case True
    have "c' ! cw = c1 ! cw" "c' ! (cw + 1) = c1 ! (cw + 1)" using c'(3) by simp_all
    moreover have "c1 ! cw = e1" "c1 ! (cw + 1) = e2" using cw1 by (simp_all add: c1_def)
    ultimately show ?thesis using True by (simp add: e1_def e2_def)
  next
    case False
    then have "a + 1 \<le> a'" using a' by simp
    moreover have "cw + 2 + 2 * (a' - (a + 1)) = cw + 2 * (a' - a)" using \<open>a + 1 \<le> a'\<close> by simp
    ultimately show ?thesis using c'(5) a'(2) by metis
  qed
  show ?case using r1 r2 r3 r4 r5 by blast
qed


lemma image_loop_run:
  assumes "a \<le> b" "cw + 2 * wb * (b - a) \<le> length c" "\<forall>n. cw \<le> n \<and> n < length c \<longrightarrow> c ! n = 0"
  shows "\<exists>c'. image_loop pixels (4 * wb) (4 * b) (4 * a) (c, cw) = (c', cw + 2 * wb * (b - a)) \<and>
           length c' = length c \<and>
           (\<forall>n<cw. c' ! n = c ! n) \<and>
           (\<forall>n. cw + 2 * wb * (b - a) \<le> n \<and> n < length c \<longrightarrow> c' ! n = 0) \<and>
           (\<forall>a' ja. a \<le> a' \<and> a' < b \<and> ja < wb \<longrightarrow>
              c' ! (cw + 2 * (wb * (a' - a) + ja)) =
                fst (encode_block pixels (4 * wb) (4 * a') (4 * ja)) \<and>
              c' ! (cw + 2 * (wb * (a' - a) + ja) + 1) =
                snd (encode_block pixels (4 * wb) (4 * a') (4 * ja)))"
  using assms
proof (induction "b - a" arbitrary: a c cw)
  case 0
  then have "a = b" by simp
  then show ?case using "0.prems" by (auto simp add: image_loop.simps [of pixels "4 * wb" "4 * b" "4 * b"])
next
  case (Suc d)
  have ab: "a < b" "d = b - (a + 1)" "a + 1 \<le> b" "b - a = Suc d" using Suc.hyps(2) by simp_all
  have room: "cw + 2 * wb + 2 * wb * d \<le> length c" using Suc.prems(2) by (simp add: ab(4))
  have q2: "cw + 2 * (wb - 0) \<le> length c" using room by simp
  have "\<exists>c'. row_loop pixels (4 * wb) (4 * a) 0 (c, cw) = (c', cw + 2 * wb) \<and>
           length c' = length c \<and>
           (\<forall>n<cw. c' ! n = c ! n) \<and>
           (\<forall>n. cw + 2 * wb \<le> n \<and> n < length c \<longrightarrow> c' ! n = 0) \<and>
           (\<forall>a'. a' < wb \<longrightarrow>
              c' ! (cw + 2 * a') = fst (encode_block pixels (4 * wb) (4 * a) (4 * a')) \<and>
              c' ! (cw + 2 * a' + 1) = snd (encode_block pixels (4 * wb) (4 * a) (4 * a')))"
    using row_loop_run [of 0 wb cw c pixels "4 * a", OF _ q2 Suc.prems(3)] by simp
  then obtain c1 where c1: "row_loop pixels (4 * wb) (4 * a) 0 (c, cw) = (c1, cw + 2 * wb)"
      "length c1 = length c"
      "\<forall>n<cw. c1 ! n = c ! n"
      "\<forall>n. cw + 2 * wb \<le> n \<and> n < length c \<longrightarrow> c1 ! n = 0"
      "\<forall>a'. a' < wb \<longrightarrow>
              c1 ! (cw + 2 * a') = fst (encode_block pixels (4 * wb) (4 * a) (4 * a')) \<and>
              c1 ! (cw + 2 * a' + 1) = snd (encode_block pixels (4 * wb) (4 * a) (4 * a'))"
    by (elim exE conjE) (rule that, assumption+)
  have unfold: "image_loop pixels (4 * wb) (4 * b) (4 * a) (c, cw) =
      image_loop pixels (4 * wb) (4 * b) (4 * (a + 1)) (c1, cw + 2 * wb)"
    using ab(1) c1(1) by (subst image_loop.simps) (simp add: add.commute)
  have d: "b - Suc a = d" using ab(2) by simp
  have p2: "cw + 2 * wb + 2 * wb * (b - (a + 1)) \<le> length c1"
    using room by (simp add: c1(2) d)
  have p3: "\<forall>n. cw + 2 * wb \<le> n \<and> n < length c1 \<longrightarrow> c1 ! n = 0"
    using c1(4) by (simp add: c1(2))
  obtain c' where c': "image_loop pixels (4 * wb) (4 * b) (4 * (a + 1)) (c1, cw + 2 * wb) =
        (c', cw + 2 * wb + 2 * wb * (b - (a + 1)))"
      "length c' = length c1"
      "\<forall>n<cw + 2 * wb. c' ! n = c1 ! n"
      "\<forall>n. cw + 2 * wb + 2 * wb * (b - (a + 1)) \<le> n \<and> n < length c1 \<longrightarrow> c' ! n = 0"
      "\<forall>a' ja. a + 1 \<le> a' \<and> a' < b \<and> ja < wb \<longrightarrow>
              c' ! (cw + 2 * wb + 2 * (wb * (a' - (a + 1)) + ja)) =
                fst (encode_block pixels (4 * wb) (4 * a') (4 * ja)) \<and>
              c' ! (cw + 2 * wb + 2 * (wb * (a' - (a + 1)) + ja) + 1) =
                snd (encode_block pixels (4 * wb) (4 * a') (4 * ja))"
    using Suc.hyps(1) [OF ab(2) ab(3) p2 p3]
    by (elim exE conjE) (rule that, assumption+)
  have eqn: "cw + 2 * wb + 2 * wb * (b - (a + 1)) = cw + 2 * wb * (b - a)"
    by (simp add: ab(4) d)
  have r1: "image_loop pixels (4 * wb) (4 * b) (4 * a) (c, cw) = (c', cw + 2 * wb * (b - a))"
    using unfold c'(1) eqn by simp
  have r2: "length c' = length c" using c'(2) c1(2) by simp
  have r3: "\<forall>n<cw. c' ! n = c ! n" using c'(3) c1(3) by simp
  have r4: "\<forall>n. cw + 2 * wb * (b - a) \<le> n \<and> n < length c \<longrightarrow> c' ! n = 0"
    using c'(4) eqn c1(2) by simp
  have r5: "c' ! (cw + 2 * (wb * (a' - a) + ja)) =
                fst (encode_block pixels (4 * wb) (4 * a') (4 * ja)) \<and>
            c' ! (cw + 2 * (wb * (a' - a) + ja) + 1) =
                snd (encode_block pixels (4 * wb) (4 * a') (4 * ja))"
    if a': "a \<le> a'" "a' < b" "ja < wb" for a' ja
  proof (cases "a' = a")
    case True
    have lt: "cw + 2 * ja < cw + 2 * wb" "cw + 2 * ja + 1 < cw + 2 * wb" using a'(3) by simp_all
    have "c' ! (cw + 2 * ja) = c1 ! (cw + 2 * ja)" "c' ! (cw + 2 * ja + 1) = c1 ! (cw + 2 * ja + 1)"
      using c'(3) lt by blast+
    moreover have "c1 ! (cw + 2 * ja) = fst (encode_block pixels (4 * wb) (4 * a) (4 * ja))"
      "c1 ! (cw + 2 * ja + 1) = snd (encode_block pixels (4 * wb) (4 * a) (4 * ja))"
      using c1(5) a'(3) by simp_all
    ultimately show ?thesis using True by simp
  next
    case False
    then have le: "a + 1 \<le> a'" using a' by simp
    then obtain k where k: "a' - (a + 1) = k" "a' - a = Suc k" by simp
    have "cw + 2 * wb + 2 * (wb * (a' - (a + 1)) + ja) = cw + 2 * (wb * (a' - a) + ja)"
      unfolding k by simp
    then show ?thesis using c'(5) a'(2,3) le by metis
  qed
  show ?case using r1 r2 r3 r4 r5 by blast
qed


section \<open>The whole image\<close>


lemma ToInt32_mod4: "ToInt32 x mod 4 = x mod 4"
proof -
  define y where "y = (x + 2 ^ 31) mod (2 ^ 32 :: int)"
  have "(y - 2 ^ 31) mod 4 = (y mod 4 - 2 ^ 31 mod 4) mod 4"
    by (rule mod_diff_eq [symmetric])
  also have "y mod 4 = (x + 2 ^ 31) mod 4"
    unfolding y_def by (rule mod_mod_cancel) simp
  also have "((x + 2 ^ 31) mod 4 - 2 ^ 31 mod 4) mod 4 = (x + 2 ^ 31 - 2 ^ 31) mod 4"
    by (rule mod_diff_eq)
  also have "\<dots> = x mod 4" by simp
  finally show ?thesis by (simp only: ToInt32_def y_def)
qed

lemma js_and_3: "js_and x 3 = x mod 4"
  by (simp add: js_and_def ToInt32_id and_3 ToInt32_mod4)

lemma dims_check: "js_or (js_and (int w) 3) (js_and (int h) 3) \<noteq> 0 \<longleftrightarrow> \<not> (4 dvd w \<and> 4 dvd h)"
proof -
  have r: "0 \<le> int w mod 4" "int w mod 4 < 4" "0 \<le> int h mod 4" "int h mod 4 < 4" by simp_all
  have "ToInt32 (int w mod 4) = int w mod 4" "ToInt32 (int h mod 4) = int h mod 4"
    using r by (simp_all add: ToInt32_id)
  then have "js_or (js_and (int w) 3) (js_and (int h) 3) = (int w mod 4) OR (int h mod 4)"
    by (simp add: js_or_def js_and_3)
  moreover have "(int w mod 4 = 0) = (4 dvd w)" "(int h mod 4 = 0) = (4 dvd h)"
    by presburger+
  ultimately show ?thesis by (simp add: or_eq_0_iff)
qed

lemma compress_run:
  assumes "4 dvd width img" "4 dvd height img" "width img * height img < 2 ^ 31"
  shows "\<exists>out. compress img = Inr (Some out) \<and>
           length out = width img * height img div 8 \<and>
           (\<forall>i j. block_of img i j \<longrightarrow>
              out ! block_word (width img) i j =
                fst (encode_block (data img) (width img) i j) \<and>
              out ! (block_word (width img) i j + 1) =
                snd (encode_block (data img) (width img) i j))"
proof -
  obtain wb where wb: "width img = 4 * wb" using assms(1) by (elim dvdE)
  obtain hb where hb: "height img = 4 * hb" using assms(2) by (elim dvdE)
  define c where "c = replicate (2 * wb * hb) (0 :: u32)"
  have sz: "int (width img) * int (height img) < 2 ^ 31"
    using assms(3) by (metis of_nat_mult of_nat_less_iff of_nat_numeral of_nat_power)
  have alloc: "new_Uint32Array (js_sar (int (width img) * int (height img)) 3) = Inr c"
  proof -
    have "js_sar (int (width img) * int (height img)) 3 = int (width img) * int (height img) div 8"
    proof -
      have "0 \<le> int (width img) * int (height img)" by simp
      then have "ToInt32 (int (width img) * int (height img)) = int (width img) * int (height img)"
        using sz by (intro ToInt32_id) linarith+
      then show ?thesis by (simp add: js_sar_def drop_bit_eq_div)
    qed
    also have "\<dots> = int (2 * wb * hb)" by (simp add: wb hb)
    finally have e: "js_sar (int (width img) * int (height img)) 3 = int (2 * wb * hb)" .
    have "new_Uint32Array (int n) = Inr (replicate n 0)" for n
      by (simp add: new_Uint32Array_def)
    then show ?thesis unfolding e c_def .
  qed
  have "\<exists>c'. image_loop (data img) (4 * wb) (4 * hb) (4 * 0) (c, 0) = (c', 0 + 2 * wb * (hb - 0)) \<and>
           length c' = length c \<and>
           (\<forall>n<0. c' ! n = c ! n) \<and>
           (\<forall>n. 0 + 2 * wb * (hb - 0) \<le> n \<and> n < length c \<longrightarrow> c' ! n = 0) \<and>
           (\<forall>a' ja. 0 \<le> a' \<and> a' < hb \<and> ja < wb \<longrightarrow>
              c' ! (0 + 2 * (wb * (a' - 0) + ja)) =
                fst (encode_block (data img) (4 * wb) (4 * a') (4 * ja)) \<and>
              c' ! (0 + 2 * (wb * (a' - 0) + ja) + 1) =
                snd (encode_block (data img) (4 * wb) (4 * a') (4 * ja)))"
    by (rule image_loop_run) (simp_all add: c_def)
  then obtain c' where c': "image_loop (data img) (4 * wb) (4 * hb) 0 (c, 0) = (c', 2 * wb * hb)"
      "length c' = length c"
      "\<forall>a' ja. a' < hb \<and> ja < wb \<longrightarrow>
              c' ! (2 * (wb * a' + ja)) = fst (encode_block (data img) (4 * wb) (4 * a') (4 * ja)) \<and>
              c' ! (2 * (wb * a' + ja) + 1) = snd (encode_block (data img) (4 * wb) (4 * a') (4 * ja))"
    by auto
  have res: "compress img = Inr (Some c')"
    using assms(1,2) by (simp add: compress_def Let_def dims_check alloc c'(1) [folded wb hb])
  have len: "length c' = width img * height img div 8"
    by (simp add: c'(2) c_def wb hb)
  have blocks: "c' ! block_word (width img) i j = fst (encode_block (data img) (width img) i j) \<and>
        c' ! (block_word (width img) i j + 1) = snd (encode_block (data img) (width img) i j)"
    if "block_of img i j" for i j
  proof -
    from that obtain a' ja where ij: "i = 4 * a'" "j = 4 * ja"
      unfolding block_of_def by (auto elim!: dvdE)
    have lt: "a' < hb" "ja < wb" using that by (simp_all add: block_of_def ij wb hb)
    have bw: "block_word (width img) i j = 2 * (wb * a' + ja)"
      by (simp add: block_word_def ij wb)
    show ?thesis unfolding bw using c'(3) lt by (simp add: ij wb)
  qed
  show ?thesis using res len blocks by blast
qed

section \<open>Dimension check and output size\<close>

lemma compress_null_iff:
  "compress img = Inr None \<longleftrightarrow> \<not> (4 dvd width img \<and> 4 dvd height img)"
  by (auto simp add: compress_def Let_def dims_check split: sum.splits)

text \<open>
  C3: \<open>compress\<close> returns \<^verbatim>\<open>null\<close> exactly when the width or the height is not a multiple
  of 4, and then no array is returned; when both are multiples of 4 and
  \<open>width * height < 2 ^ 31\<close>, it returns an array of exactly \<open>width * height / 8\<close> 32-bit
  words.
\<close>

theorem compress_dimensions:
  "(compress img = Inr None \<longleftrightarrow> \<not> (4 dvd width img \<and> 4 dvd height img)) \<and>
   (compress img = Inr None \<longrightarrow> (\<forall>out. compress img \<noteq> Inr (Some out))) \<and>
   (4 dvd width img \<and> 4 dvd height img \<and> width img * height img < 2 ^ 31 \<longrightarrow>
      (\<exists>out. compress img = Inr (Some out) \<and> length out = width img * height img div 8))"
proof -
  have 1: "compress img = Inr None \<longleftrightarrow> \<not> (4 dvd width img \<and> 4 dvd height img)"
    by (rule compress_null_iff)
  have 2: "compress img = Inr None \<longrightarrow> (\<forall>out. compress img \<noteq> Inr (Some out))"
    by simp
  have 3: "4 dvd width img \<and> 4 dvd height img \<and> width img * height img < 2 ^ 31 \<longrightarrow>
      (\<exists>out. compress img = Inr (Some out) \<and> length out = width img * height img div 8)"
    using compress_run [of img] by blast
  show ?thesis using 1 2 3 by blast
qed

theorem compress_dimensions_witness:
  "compress \<lparr>width = 5, height = 4, data = []\<rparr> = Inr None \<and>
   \<not> (4 dvd (5 :: nat) \<and> 4 dvd (4 :: nat)) \<and>
   4 dvd (8 :: nat) \<and> 4 dvd (4 :: nat) \<and> (8 :: nat) * 4 < 2 ^ 31 \<and>
   (\<exists>out. compress \<lparr>width = 8, height = 4, data = replicate 128 7\<rparr> = Inr (Some out) \<and>
      length out = 4)"
  using compress_dimensions [of "\<lparr>width = 5, height = 4, data = []\<rparr>"]
    compress_dimensions [of "\<lparr>width = 8, height = 4, data = replicate 128 7\<rparr>"]
  by simp

lemma compress_overflow:
  "compress \<lparr>width = 65536, height = 32768, data = d\<rparr> = Inl RangeError"
proof -
  have "js_sar (65536 * 32768) 3 = - 268435456"
    by (simp add: js_sar_def ToInt32_def)
  then show ?thesis
    by (simp add: compress_def Let_def dims_check new_Uint32Array_def)
qed

text \<open>
  An image of 65536 by 32768 pixels: \<open>w * h\<close> is \<open>2 ^ 31\<close>, which \<^verbatim>\<open>>>\<close> reads as a negative
  32-bit integer, and the allocation of the output array throws.
\<close>

theorem compress_dimensions_counterexample:
  "4 dvd (65536 :: nat) \<and> 4 dvd (32768 :: nat) \<and>
   valid_image \<lparr>width = 65536, height = 32768, data = replicate (4 * 65536 * 32768) 0\<rparr> \<and>
   compress \<lparr>width = 65536, height = 32768, data = replicate (4 * 65536 * 32768) 0\<rparr> = Inl RangeError"
  by (simp add: compress_overflow valid_image_def)

section \<open>The alpha channel\<close>

lemma pixel_cong:
  assumes "length d1 = length d2"
    and "\<forall>n<length d1. n mod 4 \<noteq> 3 \<longrightarrow> d1 ! n = d2 ! n"
    and "off mod 4 \<noteq> 3"
  shows "pixel d1 off = pixel d2 off"
proof (cases "0 \<le> off \<and> off < int (length d1)")
  case True
  then have "nat off < length d1" by linarith
  moreover have "nat off mod 4 \<noteq> 3"
  proof
    assume "nat off mod 4 = 3"
    then have "int (nat off mod 4) = 3" by simp
    then have "off mod 4 = 3" using True by (simp add: zmod_int)
    then show False using assms(3) by simp
  qed
  ultimately have "d1 ! nat off = d2 ! nat off" using assms(2) by blast
  then show ?thesis using True assms(1) by (simp add: pixel_def)
next
  case False
  then show ?thesis using assms(1) by (auto simp add: pixel_def)
qed

lemma offset_plus_mod:
  fixes off :: int
  assumes "off mod 4 = 0"
  shows "off mod 4 \<noteq> 3" "(off + 1) mod 4 \<noteq> 3" "(off + 2) mod 4 \<noteq> 3"
proof -
  show "off mod 4 \<noteq> 3" using assms by simp
  have "(off + 1) mod 4 = (off mod 4 + 1) mod 4" by (simp add: mod_add_left_eq)
  then show "(off + 1) mod 4 \<noteq> 3" using assms by simp
  have "(off + 2) mod 4 = (off mod 4 + 2) mod 4" by (simp add: mod_add_left_eq)
  then show "(off + 2) mod 4 \<noteq> 3" using assms by simp
qed

lemma scan_offset_mod: "scan_offset w i j m mod 4 = 0"
  by (simp add: scan_offset_def)

lemma index_offset_mod: "index_offset w i j k mod 4 = 0"
  by (simp add: index_offset_def js_shl_def ToInt32_mod4 push_bit_eq_mult)

lemma compress_block_cong:
  assumes "length d1 = length d2"
    and "\<forall>n<length d1. n mod 4 \<noteq> 3 \<longrightarrow> d1 ! n = d2 ! n"
  shows "compress_block d1 w i j st = compress_block d2 w i j st"
proof -
  note pc = pixel_cong [OF assms]
  have scan: "pixel d1 (scan_offset w i j m) = pixel d2 (scan_offset w i j m)"
      "pixel d1 (scan_offset w i j m + 1) = pixel d2 (scan_offset w i j m + 1)"
      "pixel d1 (scan_offset w i j m + 2) = pixel d2 (scan_offset w i j m + 2)" for m
    by (rule pc, rule offset_plus_mod, rule scan_offset_mod)+
  have idx: "pixel_rgb d1 (index_offset w i j k) = pixel_rgb d2 (index_offset w i j k)" for k
    unfolding pixel_rgb_def
    using pc [OF offset_plus_mod(1) [OF index_offset_mod]]
      pc [OF offset_plus_mod(2) [OF index_offset_mod]]
      pc [OF offset_plus_mod(3) [OF index_offset_mod]]
    by simp
  have "bbox_step d1 w i j = bbox_step d2 w i j"
    by (intro ext) (simp add: bbox_step_def Let_def scan)
  then have bb: "bbox_scan d1 w i j = bbox_scan d2 w i j"
    by (simp add: bbox_scan_def)
  have ix: "index_step d1 w i j pal cw = index_step d2 w i j pal cw" for pal cw
    by (intro ext) (simp add: index_step_def Let_def idx)
  show ?thesis
    by (simp add: compress_block_def bb ix Let_def split: prod.splits)
qed

lemma row_loop_cong:
  assumes "\<And>i j st. compress_block d1 w i j st = compress_block d2 w i j st"
  shows "row_loop d1 w i j st = row_loop d2 w i j st"
proof (induction "w - j" arbitrary: j st rule: less_induct)
  case less
  show ?case
  proof (cases "j < w")
    case True
    then have "w - (j + 4) < w - j" by simp
    then have "row_loop d1 w i (j + 4) (compress_block d2 w i j st) =
               row_loop d2 w i (j + 4) (compress_block d2 w i j st)"
      by (rule less.hyps)
    then show ?thesis
      using True by (simp add: row_loop.simps [of _ w i j st] assms)
  next
    case False
    then show ?thesis by (simp add: row_loop.simps [of _ w i j st])
  qed
qed

lemma image_loop_cong:
  assumes "\<And>i j st. row_loop d1 w i j st = row_loop d2 w i j st"
  shows "image_loop d1 w h i st = image_loop d2 w h i st"
proof (induction "h - i" arbitrary: i st rule: less_induct)
  case less
  show ?case
  proof (cases "i < h")
    case True
    then have "h - (i + 4) < h - i" by simp
    then have "image_loop d1 w h (i + 4) (row_loop d2 w i 0 st) =
               image_loop d2 w h (i + 4) (row_loop d2 w i 0 st)"
      by (rule less.hyps)
    then show ?thesis
      using True by (simp add: image_loop.simps [of _ w h i st] assms)
  next
    case False
    then show ?thesis by (simp add: image_loop.simps [of _ w h i st])
  qed
qed

text \<open>
  C9: two images of the same dimensions whose buffers have the same length and agree on
  every R, G and B byte (every index that is not 3 modulo 4) are compressed to the same
  result.
\<close>

theorem alpha_independence:
  assumes "width a = width b" "height a = height b" "length (data a) = length (data b)"
    and "\<forall>n<length (data a). n mod 4 \<noteq> 3 \<longrightarrow> data a ! n = data b ! n"
  shows "compress a = compress b"
proof -
  have "compress_block (data a) w i j st = compress_block (data b) w i j st" for w i j st
    using assms(3,4) by (rule compress_block_cong)
  then have "row_loop (data a) w i j st = row_loop (data b) w i j st" for w i j st
    by (rule row_loop_cong)
  then have "image_loop (data a) w h i st = image_loop (data b) w h i st" for w h i st
    by (rule image_loop_cong)
  then show ?thesis using assms(1,2) by (simp add: compress_def Let_def split: sum.splits)
qed

section \<open>The transparent image\<close>

text \<open>
  C1: for the 4 by 4 image the data length is 2, and copying the 1024-word fill pattern
  into the 2-word array throws; no array is returned.
\<close>

theorem transparent_image_4x4:
  "4 dvd (4 :: nat) \<and> getTransparentImage 4 4 = Inl RangeError"
  by (simp add: getTransparentImage_def js_sar_def ToInt32_def new_Uint32Array_def
      fill_loop.simps [of 2 0] typed_set_def TRANSPARENT_BLOCK_def TRANSPARENT_BLOCK_SIZE_def)

theorem alpha_independence_witness:
  "width \<lparr>width = 4, height = 4, data = map (\<lambda>n. if n mod 4 = 3 then 255 else 7) [0..<64]\<rparr> =
   width \<lparr>width = 4, height = 4, data = map (\<lambda>n. if n mod 4 = 3 then 0 else 7) [0..<64]\<rparr> \<and>
   length (map (\<lambda>n. if n mod 4 = 3 then 255 else 7 :: u8) [0..<64]) =
   length (map (\<lambda>n. if n mod 4 = 3 then 0 else 7 :: u8) [0..<64]) \<and>
   map (\<lambda>n. if n mod 4 = 3 then 255 else 7 :: u8) [0..<64] ! 3 \<noteq>
   map (\<lambda>n. if n mod 4 = 3 then 0 else 7 :: u8) [0..<64] ! 3 \<and>
   compress \<lparr>width = 4, height = 4, data = map (\<lambda>n. if n mod 4 = 3 then 255 else 7) [0..<64]\<rparr> =
   compress \<lparr>width = 4, height = 4, data = map (\<lambda>n. if n mod 4 = 3 then 0 else 7) [0..<64]\<rparr>"
  using alpha_independence
    [of "\<lparr>width = 4, height = 4, data = map (\<lambda>n. if n mod 4 = 3 then 255 else 7) [0..<64]\<rparr>"
        "\<lparr>width = 4, height = 4, data = map (\<lambda>n. if n mod 4 = 3 then 0 else 7) [0..<64]\<rparr>"]
  by simp

section \<open>The palette\<close>

lemma div3_trunc_nonneg:
  assumes "0 \<le> x" "x < 2 ^ 31"
  shows "div3_trunc x = x div 3"
proof -
  have e: "sgn x * (\<bar>x\<bar> div 3) = x div 3"
    using assms(1) by (cases "x = 0") (simp_all add: sgn_if)
  have "0 \<le> x div 3" "x div 3 < 2 ^ 31" using assms by auto
  then have t: "ToInt32 (x div 3) = x div 3" by (intro ToInt32_id) linarith+
  have z: "ToInt32 0 = 0" by (simp add: ToInt32_def)
  show ?thesis unfolding div3_trunc_def e js_or_def t z by simp
qed

lemma interp_arith:
  assumes "0 \<le> c0" "c0 \<le> 255" "0 \<le> c1" "c1 \<le> 255"
  shows "interp2 c0 c1 = (2 * c0 + c1) div 3" "interp3 c0 c1 = (c0 + 2 * c1) div 3"
proof -
  have s0: "js_shl c0 1 = c0 * 2 ^ 1" by (rule js_shl_small) (use assms in simp_all)
  have s1: "js_shl c1 1 = c1 * 2 ^ 1" by (rule js_shl_small) (use assms in simp_all)
  have "div3_trunc (c1 + c0 * 2 ^ 1) = (c1 + c0 * 2 ^ 1) div 3"
    by (rule div3_trunc_nonneg) (use assms in simp_all)
  then show "interp2 c0 c1 = (2 * c0 + c1) div 3"
    unfolding interp2_def s0 by (simp add: add.commute mult.commute)
  have "div3_trunc (c1 * 2 ^ 1 + c0) = (c1 * 2 ^ 1 + c0) div 3"
    by (rule div3_trunc_nonneg) (use assms in simp_all)
  then show "interp3 c0 c1 = (c0 + 2 * c1) div 3"
    unfolding interp3_def s1 by (simp add: add.commute mult.commute)
qed

text \<open>
  C7: for 16-bit endpoints, palette entry 0 is the expansion of \<open>maxColor565\<close>, entry 1
  the expansion of \<open>minColor565\<close>, and, in each channel, entry 2 is
  \<open>(2 * entry 0 + entry 1) div 3\<close> and entry 3 is \<open>(entry 0 + 2 * entry 1) div 3\<close>, the
  quotients of non-negative integers rounded down.
\<close>

theorem palette_formulas:
  assumes "0 \<le> maxColor565" "maxColor565 < 2 ^ 16" "0 \<le> minColor565" "minColor565 < 2 ^ 16"
    and "pal = build_palette maxColor565 minColor565"
  shows "entry pal 0 = (rFromRGB565 maxColor565, gFromRGB565 maxColor565, bFromRGB565 maxColor565) \<and>
     entry pal 1 = (rFromRGB565 minColor565, gFromRGB565 minColor565, bFromRGB565 minColor565) \<and>
     entry pal 2 = ((2 * colorsR pal ! 0 + colorsR pal ! 1) div 3,
                    (2 * colorsG pal ! 0 + colorsG pal ! 1) div 3,
                    (2 * colorsB pal ! 0 + colorsB pal ! 1) div 3) \<and>
     entry pal 3 = ((colorsR pal ! 0 + 2 * colorsR pal ! 1) div 3,
                    (colorsG pal ! 0 + 2 * colorsG pal ! 1) div 3,
                    (colorsB pal ! 0 + 2 * colorsB pal ! 1) div 3) \<and>
     length (colorsR pal) = 4 \<and> length (colorsG pal) = 4 \<and> length (colorsB pal) = 4 \<and>
     0 \<le> 2 * colorsR pal ! 0 + colorsR pal ! 1 \<and> 0 \<le> colorsR pal ! 0 + 2 * colorsR pal ! 1 \<and>
     0 \<le> 2 * colorsG pal ! 0 + colorsG pal ! 1 \<and> 0 \<le> colorsG pal ! 0 + 2 * colorsG pal ! 1 \<and>
     0 \<le> 2 * colorsB pal ! 0 + colorsB pal ! 1 \<and> 0 \<le> colorsB pal ! 0 + 2 * colorsB pal ! 1"
proof -
  have mx: "0 \<le> maxColor565" "maxColor565 < 65536" and mn: "0 \<le> minColor565" "minColor565 < 65536"
    using assms by simp_all
  note rx = unpack_range [OF mx] and rn = unpack_range [OF mn]
  have R: "interp2 (rFromRGB565 maxColor565) (rFromRGB565 minColor565) =
             (2 * rFromRGB565 maxColor565 + rFromRGB565 minColor565) div 3"
          "interp3 (rFromRGB565 maxColor565) (rFromRGB565 minColor565) =
             (rFromRGB565 maxColor565 + 2 * rFromRGB565 minColor565) div 3"
    by (rule interp_arith; use rx rn in simp)+
  have G: "interp2 (gFromRGB565 maxColor565) (gFromRGB565 minColor565) =
             (2 * gFromRGB565 maxColor565 + gFromRGB565 minColor565) div 3"
          "interp3 (gFromRGB565 maxColor565) (gFromRGB565 minColor565) =
             (gFromRGB565 maxColor565 + 2 * gFromRGB565 minColor565) div 3"
    by (rule interp_arith; use rx rn in simp)+
  have B: "interp2 (bFromRGB565 maxColor565) (bFromRGB565 minColor565) =
             (2 * bFromRGB565 maxColor565 + bFromRGB565 minColor565) div 3"
          "interp3 (bFromRGB565 maxColor565) (bFromRGB565 minColor565) =
             (bFromRGB565 maxColor565 + 2 * bFromRGB565 minColor565) div 3"
    by (rule interp_arith; use rx rn in simp)+
  show ?thesis
    using rx rn by (simp add: assms(5) build_palette_def Let_def entry_def R G B)
qed

theorem palette_formulas_witness:
  "(0 :: int) \<le> 61470 \<and> (61470 :: int) < 2 ^ 16 \<and> (0 :: int) \<le> 2049 \<and> (2049 :: int) < 2 ^ 16 \<and>
   entry (build_palette 61470 2049) 0 = (rFromRGB565 61470, gFromRGB565 61470, bFromRGB565 61470) \<and>
   entry (build_palette 61470 2049) 0 = (247, 0, 247) \<and>
   entry (build_palette 61470 2049) 1 = (8, 0, 8) \<and>
   entry (build_palette 61470 2049) 2 = (167, 0, 167) \<and>
   entry (build_palette 61470 2049) 3 = (87, 0, 87)"
  using palette_formulas [of 61470 2049 "build_palette 61470 2049"]
  by (simp add: rFromRGB565_arith gFromRGB565_arith bFromRGB565_arith build_palette_def Let_def)

section \<open>Reading the pixels of a block\<close>

lemma pixel_range: "pixel d off = Some v \<Longrightarrow> 0 \<le> v \<and> v \<le> 255"
proof -
  assume "pixel d off = Some v"
  then have "v = uint (d ! nat off)" by (auto simp add: pixel_def split: if_splits)
  then show ?thesis using uint_lt2p [of "d ! nat off"] by simp
qed

lemma js_sar_2: "m < 16 \<Longrightarrow> js_sar (int m) 2 = int (m div 4)"
  by (simp add: js_sar_small zdiv_int)

lemma js_and_3_nat: "js_and (int m) 3 = int (m mod 4)"
  by (simp add: js_and_3 zmod_int)

lemma scan_offset_eq:
  "m < 16 \<Longrightarrow> scan_offset w i j m = int (4 * ((i + m div 4) * w + j + m mod 4))"
  by (simp add: scan_offset_def js_sar_2 js_and_3_nat)

lemma index_offset_eq:
  assumes "m < 16" "4 * ((i + m div 4) * w + j + m mod 4) < 2 ^ 31"
  shows "index_offset w i j m = int (4 * ((i + m div 4) * w + j + m mod 4))"
proof -
  define x where "x = (i + m div 4) * w + j + m mod 4"
  have "int (4 * x) < int (2 ^ 31)"
    using assms(2) unfolding x_def by (rule iffD2 [OF of_nat_less_iff])
  then have x: "int x * 2 ^ 2 < 2 ^ 31" by simp
  have a: "(int i + js_sar (int m) 2) * int w + int j + js_and (int m) 3 = int x"
    using assms(1) by (simp add: x_def js_sar_2 js_and_3_nat)
  have s: "js_shl (int x) 2 = int x * 2 ^ 2"
    by (rule js_shl_small) (use x in simp_all)
  show ?thesis unfolding index_offset_def a s x_def [symmetric] by simp
qed

lemma pixel_in_image:
  assumes "valid_image img" "block_of img i j" "m < 16"
  shows "4 * ((i + m div 4) * width img + j + m mod 4) + 3 < length (data img)"
proof -
  define w h where "w = width img" and "h = height img"
  have v: "4 dvd w" "4 dvd h" "length (data img) = 4 * w * h"
    using assms(1) by (simp_all add: valid_image_def w_def h_def)
  have b: "4 dvd i" "4 dvd j" "i < h" "j < w"
    using assms(2) by (simp_all add: block_of_def w_def h_def)
  have "i + 4 \<le> h" using b(1,3) v(2) by (auto elim!: dvdE)
  moreover have "m div 4 < 4" using assms(3) by simp
  ultimately have y: "i + m div 4 + 1 \<le> h" by simp
  have "j + 4 \<le> w" using b(2,4) v(1) by (auto elim!: dvdE)
  then have x: "j + m mod 4 < w" by simp
  have "(i + m div 4) * w + (j + m mod 4) < (i + m div 4) * w + w" using x by simp
  also have "\<dots> = (i + m div 4 + 1) * w" by simp
  also have "\<dots> \<le> h * w" using y by (intro mult_le_mono1) 
  finally have "(i + m div 4) * w + j + m mod 4 < w * h" by (simp add: mult.commute add.assoc)
  then show ?thesis unfolding v(3) w_def [symmetric] by simp
qed

lemma pixel_rgb_block:
  assumes "valid_image img" "block_of img i j" "m < 16"
  shows "pixel_rgb (data img) (scan_offset (width img) i j m) =
           (case block_pixel img i j m of (r, g, b) \<Rightarrow> (Some r, Some g, Some b))"
proof -
  define p where "p = 4 * ((i + m div 4) * width img + j + m mod 4)"
  have lt: "p + 3 < length (data img)" unfolding p_def using assms by (rule pixel_in_image)
  have off: "scan_offset (width img) i j m = int p"
    unfolding p_def using assms(3) by (rule scan_offset_eq)
  have "pixel (data img) (int p) = Some (uint (data img ! p))"
    "pixel (data img) (int p + 1) = Some (uint (data img ! (p + 1)))"
    "pixel (data img) (int p + 2) = Some (uint (data img ! (p + 2)))"
    using lt by (simp_all add: pixel_def nat_add_distrib)
  then show ?thesis
    by (simp add: pixel_rgb_def off block_pixel_def rgb_at_def Let_def p_def add.assoc)
qed

lemma block_pixel_range:
  "block_pixel img i j m = (r, g, b) \<Longrightarrow>
     0 \<le> r \<and> r \<le> 255 \<and> 0 \<le> g \<and> g \<le> 255 \<and> 0 \<le> b \<and> b \<le> 255"
proof -
  have u: "0 \<le> uint x \<and> uint x \<le> 255" for x :: u8
    using uint_lt2p [of x] by simp
  assume "block_pixel img i j m = (r, g, b)"
  then show ?thesis using u by (auto simp add: block_pixel_def rgb_at_def Let_def)
qed

section \<open>The bounding box\<close>

lemma chan_step:
  assumes "chan_inv mx mn" "p = None \<or> (\<exists>v. p = Some v \<and> 0 \<le> v \<and> v \<le> 255)"
  shows "chan_inv (raise_to mx p) (lower_to mn p)"
  using assms by (auto simp add: chan_inv_def raise_to_def lower_to_def split: if_splits)

lemma chan_step_seen:
  assumes "chan_inv mx mn" "0 \<le> v" "v \<le> 255"
  shows "0 \<le> lower_to mn (Some v) \<and> lower_to mn (Some v) \<le> raise_to mx (Some v) \<and>
         raise_to mx (Some v) \<le> 255"
  using assms by (auto simp add: chan_inv_def raise_to_def lower_to_def split: if_splits)

lemma pixel_cases: "pixel d off = None \<or> (\<exists>v. pixel d off = Some v \<and> 0 \<le> v \<and> v \<le> 255)"
  using pixel_range [of d off] by (cases "pixel d off") auto

lemma bbox_step_inv: "bbox_inv bb \<Longrightarrow> bbox_inv (bbox_step pixels w i j bb m)"
  by (simp add: bbox_inv_def bbox_step_def Let_def chan_step pixel_cases)

lemma bbox_fold_inv: "bbox_inv bb \<Longrightarrow> bbox_inv (foldl (bbox_step pixels w i j) bb ms)"
  by (induction ms arbitrary: bb) (simp_all add: bbox_step_inv)

lemma bbox_init_inv: "bbox_inv bbox_init"
  by (simp add: bbox_inv_def bbox_init_def chan_inv_def)

lemma bbox_scan_inv: "bbox_inv (bbox_scan pixels w i j)"
  unfolding bbox_scan_def by (rule bbox_fold_inv) (rule bbox_init_inv)

text \<open>Once a pixel has been read in full, every channel has \<open>0 \<le> min \<le> max \<le> 255\<close>.\<close>

lemma bbox_step_seen:
  assumes "bbox_inv bb" "pixel_rgb pixels (scan_offset w i j m) = (Some r, Some g, Some b)"
  shows "bbox_seen (bbox_step pixels w i j bb m)"
proof -
  have p: "pixel pixels (scan_offset w i j m) = Some r"
    "pixel pixels (scan_offset w i j m + 1) = Some g"
    "pixel pixels (scan_offset w i j m + 2) = Some b"
    using assms(2) by (simp_all add: pixel_rgb_def)
  note r = pixel_range [OF p(1)] and g = pixel_range [OF p(2)] and b = pixel_range [OF p(3)]
  have i: "chan_inv (maxR bb) (minR bb)" "chan_inv (maxG bb) (minG bb)" "chan_inv (maxB bb) (minB bb)"
    using assms(1) by (simp_all add: bbox_inv_def)
  have "0 \<le> lower_to (minR bb) (Some r) \<and> lower_to (minR bb) (Some r) \<le> raise_to (maxR bb) (Some r) \<and>
         raise_to (maxR bb) (Some r) \<le> 255"
    using i(1) r by (intro chan_step_seen) simp_all
  moreover have "0 \<le> lower_to (minG bb) (Some g) \<and> lower_to (minG bb) (Some g) \<le> raise_to (maxG bb) (Some g) \<and>
         raise_to (maxG bb) (Some g) \<le> 255"
    using i(2) g by (intro chan_step_seen) simp_all
  moreover have "0 \<le> lower_to (minB bb) (Some b) \<and> lower_to (minB bb) (Some b) \<le> raise_to (maxB bb) (Some b) \<and>
         raise_to (maxB bb) (Some b) \<le> 255"
    using i(3) b by (intro chan_step_seen) simp_all
  ultimately show ?thesis
    by (simp add: bbox_seen_def bbox_step_def Let_def p)
qed

lemma bbox_seen_inv: "bbox_seen bb \<Longrightarrow> bbox_inv bb"
  by (simp add: bbox_seen_def bbox_inv_def chan_inv_def)

lemma bbox_fold_seen:
  assumes "\<forall>m\<in>set ms. \<exists>r g b. pixel_rgb pixels (scan_offset w i j m) = (Some r, Some g, Some b)"
    and "bbox_inv bb" "ms \<noteq> [] \<or> bbox_seen bb"
  shows "bbox_seen (foldl (bbox_step pixels w i j) bb ms)"
  using assms
proof (induction ms arbitrary: bb)
  case Nil
  then show ?case by simp
next
  case (Cons m ms)
  obtain r g b where "pixel_rgb pixels (scan_offset w i j m) = (Some r, Some g, Some b)"
    using Cons.prems(1) by auto
  then have s: "bbox_seen (bbox_step pixels w i j bb m)"
    using Cons.prems(2) by (intro bbox_step_seen)
  have "bbox_seen (foldl (bbox_step pixels w i j) (bbox_step pixels w i j bb m) ms)"
    using Cons.prems(1) s by (intro Cons.IH) (simp_all add: bbox_seen_inv)
  then show ?case by simp
qed

lemma bbox_scan_seen:
  assumes "valid_image img" "block_of img i j"
  shows "bbox_seen (bbox_scan (data img) (width img) i j)"
  unfolding bbox_scan_def
proof (rule bbox_fold_seen)
  show "\<forall>m\<in>set [0..<16]. \<exists>r g b.
      pixel_rgb (data img) (scan_offset (width img) i j m) = (Some r, Some g, Some b)"
  proof
    fix m assume "m \<in> set [0..<16]"
    then have "m < 16" by simp
    then show "\<exists>r g b. pixel_rgb (data img) (scan_offset (width img) i j m) = (Some r, Some g, Some b)"
      using pixel_rgb_block [OF assms] by (cases "block_pixel img i j m") simp
  qed
  show "bbox_inv bbox_init" by (rule bbox_init_inv)
  show "[0..<16] \<noteq> [] \<or> bbox_seen bbox_init" by simp
qed

section \<open>The inset\<close>

lemma inset_arith:
  assumes "- 256 < mx - mn" "mx - mn < 256"
  shows "inset mx mn = (mx - mn) div 16"
proof -
  have "ToInt32 (mx - mn) = mx - mn" using assms by (intro ToInt32_id) simp_all
  then show ?thesis by (simp add: inset_def js_sar_def INSET_SHIFT_def drop_bit_eq_div)
qed

lemma guards_seen:
  assumes "0 \<le> mn" "mn \<le> mx" "mx \<le> 255"
  shows "inset mx mn \<le> mx" "mn + inset mx mn < 255 \<or> mn + inset mx mn = 255"
    "inset_max mx (inset mx mn) = mx - inset mx mn"
    "inset_min mn (inset mx mn) = mn + inset mx mn"
    "0 \<le> inset mx mn" "inset mx mn \<le> mx - mn"
proof -
  define d where "d = mx - mn"
  define q where "q = d div 16"
  have d: "0 \<le> d" "d \<le> 255" using assms by (simp_all add: d_def)
  have i: "inset mx mn = q" unfolding q_def d_def using assms by (intro inset_arith) linarith+
  have q: "0 \<le> q" "q \<le> d" using d unfolding q_def by auto
  show "inset mx mn \<le> mx" using q assms by (simp add: i d_def)
  show "mn + inset mx mn < 255 \<or> mn + inset mx mn = 255" using q assms unfolding i d_def by linarith
  show "inset_max mx (inset mx mn) = mx - inset mx mn" using q assms by (simp add: i d_def inset_max_def)
  have "mn + q < 255 \<or> mn + q = 255" using q assms unfolding d_def by linarith
  then show "inset_min mn (inset mx mn) = mn + inset mx mn"
    unfolding i inset_min_def by auto
  show "0 \<le> inset mx mn" "inset mx mn \<le> mx - mn" using q by (simp_all add: i d_def)
qed

text \<open>
  C10: in every block of an image, each channel of the bounding box has
  \<open>0 \<le> min \<le> max \<le> 255\<close>; the guard \<open>max \<ge> inset\<close> of the max endpoint always holds, the
  guard \<open>min + inset < 255\<close> of the min endpoint fails only when \<open>min + inset = 255\<close>, and so
  the two clamped values are \<open>max - inset\<close> and \<open>min + inset\<close>.
\<close>

theorem inset_guards:
  assumes "valid_image img" "block_of img i j"
    and "bb = bbox_scan (data img) (width img) i j"
    and "(mx, mn) \<in> {(maxR bb, minR bb), (maxG bb, minG bb), (maxB bb, minB bb)}"
    and "ins = inset mx mn"
  shows "0 \<le> mn \<and> mn \<le> mx \<and> mx \<le> 255 \<and>
         ins = js_sar (mx - mn) 4 \<and>
         mx \<ge> ins \<and>
         (mn + ins < 255 \<or> mn + ins = 255) \<and>
         inset_max mx ins = mx - ins \<and>
         inset_min mn ins = mn + ins"
proof -
  have "bbox_seen bb" unfolding assms(3) using assms(1,2) by (rule bbox_scan_seen)
  then have s: "0 \<le> mn" "mn \<le> mx" "mx \<le> 255"
    using assms(4) by (auto simp add: bbox_seen_def)
  note g = guards_seen [OF s]
  have "ins = js_sar (mx - mn) 4" by (simp add: assms(5) inset_def INSET_SHIFT_def)
  then show ?thesis using s g by (simp add: assms(5))
qed

section \<open>The endpoint word\<close>




section \<open>Endpoints of a block\<close>

lemma inset_unseen: "inset 0 255 = - 16"
  by (simp add: inset_def js_sar_def ToInt32_def INSET_SHIFT_def drop_bit_eq_div)

lemma chan_args_range:
  assumes "chan_inv mx mn"
  shows "0 \<le> inset_max mx (inset mx mn) \<and> inset_max mx (inset mx mn) < 256 \<and>
         0 \<le> inset_min mn (inset mx mn) \<and> inset_min mn (inset mx mn) < 256"
proof (cases "mx = 0 \<and> mn = 255")
  case True
  then show ?thesis by (simp add: inset_unseen inset_max_def inset_min_def)
next
  case False
  then have s: "0 \<le> mn" "mn \<le> mx" "mx \<le> 255" using assms by (auto simp add: chan_inv_def)
  note g = guards_seen [OF s]
  show ?thesis unfolding g(3) g(4) using g(5,6) g(2) s by linarith
qed

lemma endpoints_range:
  assumes "bbox_inv bb"
  shows "0 \<le> fst (endpoints bb) \<and> fst (endpoints bb) < 65536 \<and>
         0 \<le> snd (endpoints bb) \<and> snd (endpoints bb) < 65536"
proof -
  note r = chan_args_range [of "maxR bb" "minR bb"] chan_args_range [of "maxG bb" "minG bb"]
    chan_args_range [of "maxB bb" "minB bb"]
  have c: "chan_inv (maxR bb) (minR bb)" "chan_inv (maxG bb) (minG bb)" "chan_inv (maxB bb) (minB bb)"
    using assms by (simp_all add: bbox_inv_def)
  have "0 \<le> toRGB565 (inset_max (maxR bb) (inset (maxR bb) (minR bb)))
                       (inset_max (maxG bb) (inset (maxG bb) (minG bb)))
                       (inset_max (maxB bb) (inset (maxB bb) (minB bb))) \<and>
        toRGB565 (inset_max (maxR bb) (inset (maxR bb) (minR bb)))
                       (inset_max (maxG bb) (inset (maxG bb) (minG bb)))
                       (inset_max (maxB bb) (inset (maxB bb) (minB bb))) < 65536"
    by (rule toRGB565_range) (use r c in simp_all)
  moreover have "0 \<le> toRGB565 (inset_min (minR bb) (inset (maxR bb) (minR bb)))
                       (inset_min (minG bb) (inset (maxG bb) (minG bb)))
                       (inset_min (minB bb) (inset (maxB bb) (minB bb))) \<and>
        toRGB565 (inset_min (minR bb) (inset (maxR bb) (minR bb)))
                       (inset_min (minG bb) (inset (maxG bb) (minG bb)))
                       (inset_min (minB bb) (inset (maxB bb) (minB bb))) < 65536"
    by (rule toRGB565_range) (use r c in simp_all)
  ultimately show ?thesis by (simp add: endpoints_def Let_def)
qed

lemma order_endpoints_cases:
  "order_endpoints (a, b) = (if a < b then (b, a) else (a, b))"
  by (simp add: order_endpoints_def)

lemma block_endpoints_range:
  "0 \<le> fst (block_endpoints img i j) \<and> fst (block_endpoints img i j) < 65536 \<and>
   0 \<le> snd (block_endpoints img i j) \<and> snd (block_endpoints img i j) < 65536 \<and>
   snd (block_endpoints img i j) \<le> fst (block_endpoints img i j)"
proof -
  obtain a b where e: "endpoints (bbox_scan (data img) (width img) i j) = (a, b)"
    by (cases "endpoints (bbox_scan (data img) (width img) i j)")
  have "0 \<le> a \<and> a < 65536 \<and> 0 \<le> b \<and> b < 65536"
    using endpoints_range [OF bbox_scan_inv, of "data img" "width img" i j] by (simp add: e)
  then show ?thesis by (simp add: block_endpoints_def e order_endpoints_cases)
qed


lemma block_word_bound:
  assumes "4 dvd w" "4 dvd h" "4 dvd i" "4 dvd j" "i < h" "j < w"
  shows "block_word w i j + 1 < w * h div 8"
proof -
  obtain wb where wb: "w = 4 * wb" using assms(1) by (elim dvdE)
  obtain hb where hb: "h = 4 * hb" using assms(2) by (elim dvdE)
  obtain a where a: "i = 4 * a" using assms(3) by (elim dvdE)
  obtain c where c: "j = 4 * c" using assms(4) by (elim dvdE)
  have lt: "a < hb" "c < wb" using assms(5,6) by (simp_all add: wb hb a c)
  have "a * wb + c < a * wb + wb" using lt by simp
  also have "\<dots> = (a + 1) * wb" by simp
  also have "\<dots> \<le> hb * wb" using lt by (intro mult_le_mono1) simp
  finally have "2 * (a * wb + c) + 1 < 2 * (hb * wb)" by simp
  moreover have "w * h div 8 = 2 * (hb * wb)" by (simp add: wb hb)
  moreover have "block_word w i j = 2 * (a * wb + c)" by (simp add: block_word_def wb a c)
  ultimately show ?thesis by simp
qed


section \<open>Blocks of a single colour\<close>







section \<open>The nearest palette entry\<close>

lemma upt_4: "[0..<4] = [0, 1, 2, 3 :: nat]"
  by (simp add: upt_rec)

lemma less_4_cases: "(n :: nat) < 4 \<Longrightarrow> n = 0 \<or> n = 1 \<or> n = 2 \<or> n = 3"
  by linarith

lemma sq_dist_some:
  "sq_dist (Some r, Some g, Some b) pal n = Some (dist2 (r, g, b) (entry pal n))"
  by (simp add: sq_dist_def dist2_def entry_def Let_def)

lemma nearest_eq:
  fixes d :: "nat \<Rightarrow> int"
  assumes "\<And>n. d n = dist2 (r, g, b) (entry pal n)"
  shows "nearest (Some r, Some g, Some b) pal =
     (let s0 = (if 200000000 > d 0 then (d 0, 0) else (200000000, 0));
          s1 = (if fst s0 > d 1 then (d 1, 1) else s0);
          s2 = (if fst s1 > d 2 then (d 2, 2) else s1);
          s3 = (if fst s2 > d 3 then (d 3, 3) else s2)
      in snd s3)"
  by (simp add: nearest_def upt_4 nearest_step_def sq_dist_some assms [symmetric] Let_def
      split: prod.splits)

lemma nearest_first_min:
  fixes d :: "nat \<Rightarrow> int"
  assumes d: "\<And>n. d n = dist2 (r, g, b) (entry pal n)"
    and bound: "\<forall>n<4. d n < 200000000"
    and idx: "idx = nearest (Some r, Some g, Some b) pal"
  shows "idx < 4 \<and> (\<forall>n<4. d idx \<le> d n) \<and> (\<forall>n<idx. d idx < d n)"
proof -
  have b: "d 0 < 200000000" "d 1 < 200000000" "d 2 < 200000000" "d 3 < 200000000"
    using bound by simp_all
  have e: "idx = (if d 1 < d 0 then (if d 2 < d 1 then (if d 3 < d 2 then 3 else 2)
                                    else (if d 3 < d 1 then 3 else 1))
                  else (if d 2 < d 0 then (if d 3 < d 2 then 3 else 2)
                        else (if d 3 < d 0 then 3 else 0)))"
    unfolding idx nearest_eq [of d, OF d] using b by (simp add: Let_def)
  have 1: "idx < 4" unfolding e by simp
  have all: "d idx \<le> d 0 \<and> d idx \<le> d 1 \<and> d idx \<le> d 2 \<and> d idx \<le> d 3"
    unfolding e by auto
  have 2: "d idx \<le> d n" if "n < 4" for n
    using less_4_cases [OF that] all by auto
  have first: "(0 < idx \<longrightarrow> d idx < d 0) \<and> (1 < idx \<longrightarrow> d idx < d 1) \<and>
      (2 < idx \<longrightarrow> d idx < d 2)"
    unfolding e by auto
  have 3: "d idx < d n" if "n < idx" for n
  proof -
    have "n < 4" using that 1 by simp
    from less_4_cases [OF this] show ?thesis
      using that first 1 by auto
  qed
  show ?thesis using 1 2 3 by blast
qed


section \<open>Palette entries and distances\<close>

lemma interp_range:
  assumes "0 \<le> c0" "c0 \<le> 255" "0 \<le> c1" "c1 \<le> 255"
  shows "0 \<le> interp2 c0 c1 \<and> interp2 c0 c1 \<le> 255" "0 \<le> interp3 c0 c1 \<and> interp3 c0 c1 \<le> 255"
proof -
  note i = interp_arith [OF assms]
  define s2 where "s2 = 2 * c0 + c1"
  define s3 where "s3 = c0 + 2 * c1"
  have "0 \<le> s2" "s2 \<le> 765" "0 \<le> s3" "s3 \<le> 765" using assms by (simp_all add: s2_def s3_def)
  then have "0 \<le> s2 div 3 \<and> s2 div 3 \<le> 255" "0 \<le> s3 div 3 \<and> s3 div 3 \<le> 255" by auto
  then show "0 \<le> interp2 c0 c1 \<and> interp2 c0 c1 \<le> 255" "0 \<le> interp3 c0 c1 \<and> interp3 c0 c1 \<le> 255"
    unfolding i s2_def s3_def by simp_all
qed

lemma palette_entry_range:
  assumes "0 \<le> mx" "mx < 65536" "0 \<le> mn" "mn < 65536" "n < 4"
    and "entry (build_palette mx mn) n = (r', g', b')"
  shows "0 \<le> r' \<and> r' \<le> 255 \<and> 0 \<le> g' \<and> g' \<le> 255 \<and> 0 \<le> b' \<and> b' \<le> 255"
proof -
  note x = unpack_range [OF assms(1,2)] and y = unpack_range [OF assms(3,4)]
  have R: "0 \<le> interp2 (rFromRGB565 mx) (rFromRGB565 mn) \<and> interp2 (rFromRGB565 mx) (rFromRGB565 mn) \<le> 255"
      "0 \<le> interp3 (rFromRGB565 mx) (rFromRGB565 mn) \<and> interp3 (rFromRGB565 mx) (rFromRGB565 mn) \<le> 255"
    by (rule interp_range; use x y in simp)+
  have G: "0 \<le> interp2 (gFromRGB565 mx) (gFromRGB565 mn) \<and> interp2 (gFromRGB565 mx) (gFromRGB565 mn) \<le> 255"
      "0 \<le> interp3 (gFromRGB565 mx) (gFromRGB565 mn) \<and> interp3 (gFromRGB565 mx) (gFromRGB565 mn) \<le> 255"
    by (rule interp_range; use x y in simp)+
  have B: "0 \<le> interp2 (bFromRGB565 mx) (bFromRGB565 mn) \<and> interp2 (bFromRGB565 mx) (bFromRGB565 mn) \<le> 255"
      "0 \<le> interp3 (bFromRGB565 mx) (bFromRGB565 mn) \<and> interp3 (bFromRGB565 mx) (bFromRGB565 mn) \<le> 255"
    by (rule interp_range; use x y in simp)+
  from less_4_cases [OF assms(5)] show ?thesis
    using assms(6) x y R G B
    by (elim disjE) (auto simp add: entry_def build_palette_def Let_def)
qed

lemma sq_bound:
  fixes x :: int
  assumes "- 255 \<le> x" "x \<le> 255"
  shows "x * x \<le> 65025"
proof -
  have "\<bar>x\<bar> * \<bar>x\<bar> \<le> 255 * 255" using assms by (intro mult_mono) simp_all
  then show ?thesis by (simp add: abs_mult_self_eq)
qed

lemma dist2_bound:
  assumes "0 \<le> r \<and> r \<le> 255 \<and> 0 \<le> g \<and> g \<le> 255 \<and> 0 \<le> b \<and> b \<le> 255"
    and "0 \<le> r' \<and> r' \<le> 255 \<and> 0 \<le> g' \<and> g' \<le> 255 \<and> 0 \<le> b' \<and> b' \<le> 255"
  shows "dist2 (r, g, b) (r', g', b') < 200000000"
proof -
  have "(r - r') * (r - r') \<le> 65025" "(g - g') * (g - g') \<le> 65025" "(b - b') * (b - b') \<le> 65025"
    by (rule sq_bound; use assms in simp)+
  then show ?thesis by (simp add: dist2_def)
qed

section \<open>The index word\<close>

lemma bit_fold_or:
  "bit (foldl (\<lambda>a k. a OR g k) (a0 :: u32) ks) n \<longleftrightarrow> bit a0 n \<or> (\<exists>k\<in>set ks. bit (g k) n)"
  by (induction ks arbitrary: a0) (auto simp add: bit_or_iff)

lemma bit_small:
  assumes "x < 4" "bit (word_of_nat x :: u32) m"
  shows "m < 2"
proof -
  have "bit x m" using assms(2) by (simp add: bit_of_nat_iff)
  moreover have "take_bit 2 x = x" using assms(1) by (simp add: take_bit_nat_eq_self)
  ultimately have "bit (take_bit 2 x) m" by simp
  then show ?thesis by (simp add: bit_take_bit_iff)
qed

lemma field_extract:
  fixes f :: "nat \<Rightarrow> nat"
  assumes f: "\<forall>k<16. f k < 4" and k: "k < 16"
  shows "drop_bit (2 * k) (foldl (\<lambda>a k. a OR push_bit (2 * k) (word_of_nat (f k))) (0 :: u32) [0..<16])
           AND 3 = word_of_nat (f k)"
proof (rule bit_word_eqI)
  fix n assume n: "n < LENGTH(32)"
  define W where "W = foldl (\<lambda>a k. a OR push_bit (2 * k) (word_of_nat (f k))) (0 :: u32) [0..<16]"
  have three: "(3 :: u32) = mask 2" by (simp add: mask_eq_exp_minus_1)
  have W: "bit W m \<longleftrightarrow> (\<exists>k'<16. 2 * k' \<le> m \<and> m < 32 \<and> bit (word_of_nat (f k') :: u32) (m - 2 * k'))" for m
    unfolding W_def bit_fold_or
    apply (auto simp add: bit_push_bit_iff)
    subgoal for k' by (rule exI [of _ k']) simp
    done
  have "bit (drop_bit (2 * k) W AND 3) n \<longleftrightarrow> bit W (2 * k + n) \<and> n < 2"
    unfolding three by (auto simp add: bit_and_iff bit_drop_bit_eq bit_mask_iff)
  also have "\<dots> \<longleftrightarrow> bit (word_of_nat (f k) :: u32) n"
  proof
    assume a: "bit W (2 * k + n) \<and> n < 2"
    then obtain k' where k': "k' < 16" "2 * k' \<le> 2 * k + n"
        "bit (word_of_nat (f k') :: u32) (2 * k + n - 2 * k')"
      unfolding W by blast
    have "f k' < 4" using f k'(1) by simp
    then have "2 * k + n - 2 * k' < 2" using k'(3) by (rule bit_small)
    then have "k' = k" using k'(2) a by linarith
    then show "bit (word_of_nat (f k) :: u32) n" using k'(3) by simp
  next
    assume b: "bit (word_of_nat (f k) :: u32) n"
    have "f k < 4" using f k by simp
    then have n2: "n < 2" using b by (rule bit_small)
    have "2 * k + n < 32" using k n2 by simp
    then have "bit W (2 * k + n)" unfolding W using k b by (intro exI [of _ k]) simp
    then show "bit W (2 * k + n) \<and> n < 2" using n2 by simp
  qed
  finally show "bit (drop_bit (2 * k) (foldl (\<lambda>a k. a OR push_bit (2 * k) (word_of_nat (f k))) (0 :: u32) [0..<16])
           AND 3) n \<longleftrightarrow> bit (word_of_nat (f k) :: u32) n"
    unfolding W_def .
qed


lemma index_bits_eq:
  assumes "k < 16"
  shows "index_bits pixels w i j pal k =
     push_bit (2 * k) (word_of_nat (nearest (pixel_rgb pixels (index_offset w i j k)) pal))"
proof -
  have "js_shl (int k) 1 = int k * 2 ^ 1" by (rule js_shl_small) (use assms in simp_all)
  then have n: "nat (js_shl (int k) 1) = 2 * k" by simp
  have lt: "2 * k < 32" using assms by simp
  show ?thesis unfolding index_bits_def n shl_word [OF lt] by simp
qed

lemma index_word_eq:
  "index_word pixels w i j pal =
     foldl (\<lambda>a k. a OR push_bit (2 * k)
               (word_of_nat (nearest (pixel_rgb pixels (index_offset w i j k)) pal)))
       0 [0..<16]"
  unfolding index_word_def
  by (rule foldl_cong) (simp_all add: index_bits_eq)

lemma encode_block_index:
  assumes "\<not> degenerate img i j"
  shows "snd (encode_block (data img) (width img) i j) =
           index_word (data img) (width img) i j (block_palette img i j)"
proof -
  obtain a b where e: "endpoints (bbox_scan (data img) (width img) i j) = (a, b)"
    by (cases "endpoints (bbox_scan (data img) (width img) i j)")
  have ne: "a \<noteq> b" using assms by (simp add: degenerate_def e)
  show ?thesis
    using ne by (simp add: encode_block_eq e block_palette_def block_endpoints_def split: prod.splits)
qed

lemma index_read:
  assumes "valid_image img" "length (data img) \<le> 2 ^ 31" "block_of img i j" "k < 16"
  shows "pixel_rgb (data img) (index_offset (width img) i j k) =
           (case block_pixel img i j k of (r, g, b) \<Rightarrow> (Some r, Some g, Some b))"
proof -
  have "4 * ((i + k div 4) * width img + j + k mod 4) + 3 < length (data img)"
    using assms(1,3,4) by (rule pixel_in_image)
  then have "4 * ((i + k div 4) * width img + j + k mod 4) < 2 ^ 31" using assms(2) by simp
  then have "index_offset (width img) i j k = scan_offset (width img) i j k"
    using assms(4) by (simp add: index_offset_eq scan_offset_eq)
  then show ?thesis using pixel_rgb_block [OF assms(1,3,4)] by simp
qed

lemma block_nearest:
  assumes "valid_image img" "length (data img) \<le> 2 ^ 31" "block_of img i j" "k < 16"
    and "idx = nearest (pixel_rgb (data img) (index_offset (width img) i j k)) (block_palette img i j)"
  shows "idx < 4 \<and>
     (\<forall>n<4. dist2 (block_pixel img i j k) (entry (block_palette img i j) idx)
              \<le> dist2 (block_pixel img i j k) (entry (block_palette img i j) n)) \<and>
     (\<forall>n<idx. dist2 (block_pixel img i j k) (entry (block_palette img i j) idx)
              < dist2 (block_pixel img i j k) (entry (block_palette img i j) n))"
proof -
  obtain r g b where p: "block_pixel img i j k = (r, g, b)" by (cases "block_pixel img i j k")
  obtain mx mn where e: "block_endpoints img i j = (mx, mn)" by (cases "block_endpoints img i j")
  have er: "0 \<le> mx" "mx < 65536" "0 \<le> mn" "mn < 65536"
    using block_endpoints_range [of img i j] by (simp_all add: e)
  have pal: "block_palette img i j = build_palette mx mn" by (simp add: block_palette_def e)
  note pr = block_pixel_range [OF p]
  have rd: "pixel_rgb (data img) (index_offset (width img) i j k) = (Some r, Some g, Some b)"
    using index_read [OF assms(1-4)] by (simp add: p)
  define d where "d n = dist2 (r, g, b) (entry (block_palette img i j) n)" for n
  have bound: "\<forall>n<4. d n < 200000000"
  proof (intro allI impI)
    fix n :: nat assume n: "n < 4"
    obtain r' g' b' where q: "entry (build_palette mx mn) n = (r', g', b')"
      by (cases "entry (build_palette mx mn) n")
    note qr = palette_entry_range [OF er n q]
    show "d n < 200000000" unfolding d_def pal q using pr qr by (rule dist2_bound)
  qed
  have dd: "d n = dist2 (r, g, b) (entry (block_palette img i j) n)" for n by (simp add: d_def)
  have ii: "idx = nearest (Some r, Some g, Some b) (block_palette img i j)"
    by (simp add: assms(5) rd)
  have "idx < 4 \<and> (\<forall>n<4. d idx \<le> d n) \<and> (\<forall>n<idx. d idx < d n)"
    using dd bound ii by (rule nearest_first_min [of d r g b "block_palette img i j" idx])
  then show ?thesis by (simp add: d_def p)
qed

text \<open>
  C5: in a non-degenerate block of an image whose pixel buffer has at most \<open>2 ^ 31\<close> bytes,
  the two bits at offset \<open>2 * k\<close> of the index word are the index of a palette entry at
  minimum squared distance from pixel \<open>k\<close>, and every entry with a lower index is strictly
  farther away.
\<close>

theorem nearest_index:
  assumes "valid_image img" "length (data img) \<le> 2 ^ 31"
    and "block_of img i j" "\<not> degenerate img i j" "k < 16"
  shows "\<exists>out idx. compress img = Inr (Some out) \<and>
           block_word (width img) i j + 1 < length out \<and>
           idx = unat (drop_bit (2 * k) (out ! (block_word (width img) i j + 1)) AND 3) \<and>
           idx < 4 \<and>
           (\<forall>n<4. dist2 (block_pixel img i j k) (entry (block_palette img i j) idx)
                    \<le> dist2 (block_pixel img i j k) (entry (block_palette img i j) n)) \<and>
           (\<forall>n<idx. dist2 (block_pixel img i j k) (entry (block_palette img i j) idx)
                    < dist2 (block_pixel img i j k) (entry (block_palette img i j) n))"
proof -
  have d: "4 dvd width img" "4 dvd height img" using assms(1) by (simp_all add: valid_image_def)
  define P where "P = width img * height img"
  have "length (data img) = 4 * P"
    using assms(1) by (simp add: valid_image_def P_def)
  then have "4 * P \<le> 2 ^ 31" using assms(2) by simp
  then have "P < 2 ^ 31" by simp
  then have sz: "width img * height img < 2 ^ 31" by (simp add: P_def)
  obtain out where o: "compress img = Inr (Some out)"
      "length out = width img * height img div 8"
      "\<forall>i j. block_of img i j \<longrightarrow>
              out ! block_word (width img) i j =
                fst (encode_block (data img) (width img) i j) \<and>
              out ! (block_word (width img) i j + 1) =
                snd (encode_block (data img) (width img) i j)"
    using compress_run [OF d sz] by (elim exE conjE) (rule that, assumption+)
  have b: "4 dvd i" "4 dvd j" "i < height img" "j < width img"
    using assms(3) by (simp_all add: block_of_def)
  have "block_word (width img) i j + 1 < width img * height img div 8"
    using d b by (rule block_word_bound)
  then have 1: "block_word (width img) i j + 1 < length out" using o(2) by simp
  define f where "f k' = nearest (pixel_rgb (data img) (index_offset (width img) i j k'))
     (block_palette img i j)" for k'
  have w: "out ! (block_word (width img) i j + 1) =
      foldl (\<lambda>a k. a OR push_bit (2 * k) (word_of_nat (f k))) 0 [0..<16]"
    using o(3) assms(3) by (simp add: encode_block_index [OF assms(4)] index_word_eq f_def)
  have f4: "\<forall>k'<16. f k' < 4"
  proof (intro allI impI)
    fix k' :: nat assume "k' < 16"
    then have "f k' < 4 \<and>
     (\<forall>n<4. dist2 (block_pixel img i j k') (entry (block_palette img i j) (f k'))
              \<le> dist2 (block_pixel img i j k') (entry (block_palette img i j) n)) \<and>
     (\<forall>n<f k'. dist2 (block_pixel img i j k') (entry (block_palette img i j) (f k'))
              < dist2 (block_pixel img i j k') (entry (block_palette img i j) n))"
      using assms(1-3) f_def by (intro block_nearest)
    then show "f k' < 4" by (rule conjunct1)
  qed
  have x: "drop_bit (2 * k) (out ! (block_word (width img) i j + 1)) AND 3 = word_of_nat (f k)"
    unfolding w using f4 assms(5) by (rule field_extract)
  have "f k < 4" using f4 assms(5) by simp
  then have u: "unat (drop_bit (2 * k) (out ! (block_word (width img) i j + 1)) AND 3) = f k"
    unfolding x by (simp add: unat_of_nat)
  note n = block_nearest [OF assms(1-3,5) f_def]
  show ?thesis
    apply (rule exI [of _ out])
    apply (rule exI [of _ "f k"])
    using o(1) 1 u n by simp
qed

section \<open>The sample image\<close>

lemma upt_16: "[0..<16] = [0, 1, 2, 3, 4, 5, 6, 7, 8, 9, 10, 11, 12, 13, 14, 15 :: nat]"
  by (simp add: upt_rec)

lemma less_16_cases:
  assumes "(k :: nat) < 16"
  shows "k = 0 \<or> k = 1 \<or> k = 2 \<or> k = 3 \<or> k = 4 \<or> k = 5 \<or> k = 6 \<or> k = 7 \<or>
     k = 8 \<or> k = 9 \<or> k = 10 \<or> k = 11 \<or> k = 12 \<or> k = 13 \<or> k = 14 \<or> k = 15"
proof -
  have "k \<in> set [0..<16]" using assms by simp
  then show ?thesis unfolding upt_16 by simp
qed

lemma all_less_16:
  "(\<forall>k<16. P (k :: nat)) \<longleftrightarrow>
     P 0 \<and> P 1 \<and> P 2 \<and> P 3 \<and> P 4 \<and> P 5 \<and> P 6 \<and> P 7 \<and>
     P 8 \<and> P 9 \<and> P 10 \<and> P 11 \<and> P 12 \<and> P 13 \<and> P 14 \<and> P 15"
proof
  assume "\<forall>k<16. P k"
  then show "P 0 \<and> P 1 \<and> P 2 \<and> P 3 \<and> P 4 \<and> P 5 \<and> P 6 \<and> P 7 \<and>
     P 8 \<and> P 9 \<and> P 10 \<and> P 11 \<and> P 12 \<and> P 13 \<and> P 14 \<and> P 15" by simp
next
  assume a: "P 0 \<and> P 1 \<and> P 2 \<and> P 3 \<and> P 4 \<and> P 5 \<and> P 6 \<and> P 7 \<and>
     P 8 \<and> P 9 \<and> P 10 \<and> P 11 \<and> P 12 \<and> P 13 \<and> P 14 \<and> P 15"
  show "\<forall>k<16. P k"
  proof (intro allI impI)
    fix k :: nat assume "k < 16"
    then have "k = 0 \<or> k = 1 \<or> k = 2 \<or> k = 3 \<or> k = 4 \<or> k = 5 \<or> k = 6 \<or> k = 7 \<or>
     k = 8 \<or> k = 9 \<or> k = 10 \<or> k = 11 \<or> k = 12 \<or> k = 13 \<or> k = 14 \<or> k = 15"
      by (rule less_16_cases)
    then show "P k" using a by (elim disjE) simp_all
  qed
qed


lemma sample_data: "data sample_image = [10, 200, 30, 255, 10, 200, 30, 255, 10, 200, 30, 255, 10, 200, 30, 255,
   255, 0, 0, 255, 255, 0, 0, 255, 255, 0, 0, 255, 255, 0, 0, 255,
   10, 200, 30, 255, 10, 200, 30, 255, 10, 200, 30, 255, 10, 200, 30, 255,
   255, 0, 0, 255, 255, 0, 0, 255, 255, 0, 0, 255, 255, 0, 0, 255,
   10, 200, 30, 255, 10, 200, 30, 255, 10, 200, 30, 255, 10, 200, 30, 255,
   0, 0, 255, 255, 0, 0, 255, 255, 0, 0, 255, 255, 0, 0, 255, 255,
   10, 200, 30, 255, 10, 200, 30, 255, 10, 200, 30, 255, 10, 200, 30, 255,
   0, 0, 255, 255, 0, 0, 255, 255, 0, 0, 255, 255, 0, 0, 255, 255]"
  by (simp add: sample_image_def sample_row_def upt_rec numeral_eq_Suc)

lemma sample_dims: "width sample_image = 8" "height sample_image = 4"
  by (simp_all add: sample_image_def)

lemma sample_valid: "valid_image sample_image"
  by (simp add: valid_image_def sample_data sample_dims)

lemma sample_blocks: "block_of sample_image 0 0" "block_of sample_image 0 4"
  by (simp_all add: block_of_def sample_dims)



lemma sample_reads_right:
  "\<forall>m<16. pixel_rgb (data sample_image) (scan_offset 8 0 4 m) =
      (if m < 8 then (Some 255, Some 0, Some 0) else (Some 0, Some 0, Some 255))"
  unfolding all_less_16
  by (simp add: pixel_rgb_def scan_offset_eq pixel_def sample_data)

lemma sample_bbox: "bbox_scan (data sample_image) 8 0 4 =
   \<lparr>maxR = 255, maxG = 0, maxB = 255, minR = 0, minG = 0, minB = 0\<rparr>"
proof -
  have p: "pixel (data sample_image) (scan_offset 8 0 4 m) = (if m < 8 then Some 255 else Some 0)"
    "pixel (data sample_image) (scan_offset 8 0 4 m + 1) = Some 0"
    "pixel (data sample_image) (scan_offset 8 0 4 m + 2) = (if m < 8 then Some 0 else Some 255)"
    if "m < 16" for m
  proof -
    have "pixel_rgb (data sample_image) (scan_offset 8 0 4 m) =
      (if m < 8 then (Some 255, Some 0, Some 0) else (Some 0, Some 0, Some 255))"
      using sample_reads_right that by blast
    then show "pixel (data sample_image) (scan_offset 8 0 4 m) = (if m < 8 then Some 255 else Some 0)"
      "pixel (data sample_image) (scan_offset 8 0 4 m + 1) = Some 0"
      "pixel (data sample_image) (scan_offset 8 0 4 m + 2) = (if m < 8 then Some 0 else Some 255)"
      by (simp_all add: pixel_rgb_def split: if_splits)
  qed
  show ?thesis
    by (simp add: bbox_scan_def upt_16 bbox_step_def Let_def p bbox_init_def raise_to_def lower_to_def)
qed

lemma sample_endpoints: "endpoints (bbox_scan (data sample_image) 8 0 4) = (61470, 2049)"
  by (simp add: sample_bbox endpoints_def Let_def inset_arith inset_max_def inset_min_def toRGB565_arith)

lemma sample_block_endpoints: "block_endpoints sample_image 0 4 = (61470, 2049)"
  by (simp add: block_endpoints_def sample_dims sample_endpoints order_endpoints_cases)

theorem inset_guards_witness:
  "valid_image sample_image \<and> block_of sample_image 0 4 \<and>
   (255, 0) \<in> {(maxR (bbox_scan (data sample_image) (width sample_image) 0 4),
                 minR (bbox_scan (data sample_image) (width sample_image) 0 4)),
                (maxG (bbox_scan (data sample_image) (width sample_image) 0 4),
                 minG (bbox_scan (data sample_image) (width sample_image) 0 4)),
                (maxB (bbox_scan (data sample_image) (width sample_image) 0 4),
                 minB (bbox_scan (data sample_image) (width sample_image) 0 4))} \<and>
   inset 255 0 = 15 \<and> (255 :: int) \<ge> 15 \<and> inset_max 255 15 = 240 \<and> inset_min 0 15 = 15"
proof -
  have i: "inset 255 0 = 15" by (simp add: inset_arith)
  have m: "(255, 0) \<in> {(maxR (bbox_scan (data sample_image) (width sample_image) 0 4),
                 minR (bbox_scan (data sample_image) (width sample_image) 0 4)),
                (maxG (bbox_scan (data sample_image) (width sample_image) 0 4),
                 minG (bbox_scan (data sample_image) (width sample_image) 0 4)),
                (maxB (bbox_scan (data sample_image) (width sample_image) 0 4),
                 minB (bbox_scan (data sample_image) (width sample_image) 0 4))}"
    by (simp add: sample_dims sample_bbox)
  show ?thesis
    using inset_guards [OF sample_valid sample_blocks(2) refl m i [symmetric]] m
    by (simp add: sample_valid sample_blocks i)
qed



lemma sample_palette:
  "entry (block_palette sample_image 0 4) 0 = (247, 0, 247)"
  "entry (block_palette sample_image 0 4) 1 = (8, 0, 8)"
  "entry (block_palette sample_image 0 4) 2 = (167, 0, 167)"
  "entry (block_palette sample_image 0 4) 3 = (87, 0, 87)"
  by (simp_all add: block_palette_def sample_block_endpoints build_palette_def Let_def entry_def
      rFromRGB565_arith gFromRGB565_arith bFromRGB565_arith interp_arith)

lemma sample_not_degenerate: "\<not> degenerate sample_image 0 4"
  by (simp add: degenerate_def sample_dims sample_endpoints)

lemma sample_pixel: "block_pixel sample_image 0 4 0 = (255, 0, 0)"
  by (simp add: block_pixel_def rgb_at_def Let_def sample_dims sample_data)

theorem nearest_index_witness:
  "valid_image sample_image \<and> length (data sample_image) \<le> 2 ^ 31 \<and>
   block_of sample_image 0 4 \<and> \<not> degenerate sample_image 0 4 \<and> (0 :: nat) < 16 \<and>
   block_pixel sample_image 0 4 0 = (255, 0, 0) \<and>
   map (entry (block_palette sample_image 0 4)) [0, 1, 2, 3] =
     [(247, 0, 247), (8, 0, 8), (167, 0, 167), (87, 0, 87)] \<and>
   (\<exists>out. compress sample_image = Inr (Some out) \<and>
      unat (drop_bit (2 * 0) (out ! 3) AND 3) = 2)"
proof -
  have l: "length (data sample_image) \<le> 2 ^ 31" by (simp add: sample_data)
  have k: "(0 :: nat) < 16" by simp
  have w: "block_word (width sample_image) 0 4 + 1 = 3" by (simp add: block_word_def sample_dims)
  obtain out idx where o: "compress sample_image = Inr (Some out)"
      "idx = unat (drop_bit (2 * 0) (out ! (block_word (width sample_image) 0 4 + 1)) AND 3)"
      "idx < 4"
      "\<forall>n<4. dist2 (block_pixel sample_image 0 4 0) (entry (block_palette sample_image 0 4) idx)
               \<le> dist2 (block_pixel sample_image 0 4 0) (entry (block_palette sample_image 0 4) n)"
    using nearest_index [OF sample_valid l sample_blocks(2) sample_not_degenerate k]
    by (elim exE conjE) (rule that, assumption+)
  have "dist2 (255, 0, 0) (entry (block_palette sample_image 0 4) idx)
          \<le> dist2 (255, 0, 0) (entry (block_palette sample_image 0 4) 2)"
    using o(4) by (simp add: sample_pixel)
  moreover have s1: "entry (block_palette sample_image 0 4) (Suc 0) = (8, 0, 8)"
    using sample_palette(2) by simp
  ultimately have "idx = 2"
    using less_4_cases [OF o(3)] by (elim disjE) (simp_all add: sample_palette dist2_def)
  then have "unat (drop_bit (2 * 0) (out ! 3) AND 3) = 2" using o(2) by (simp only: w)
  then show ?thesis
    using o(1) sample_valid l sample_blocks(2) sample_not_degenerate sample_pixel
    by (auto simp add: sample_palette s1)
qed

end
